theory Spec2Isabelle
  imports Main
begin

section \<open>The USX splitter: data model\<close>

text \<open>
  The program (\<^verbatim>\<open>usx_splitter.py\<close>, driven by \<^verbatim>\<open>cli.py\<close>) reads one USX document with
  \<^verbatim>\<open>xml.etree.ElementTree\<close> and writes one small USX file per chunk of a table of contents.
  ElementTree elements are mutable objects: \<^verbatim>\<open>append\<close> stores a reference to the child, and
  the writer's indentation step assigns to \<^verbatim>\<open>text\<close> and \<^verbatim>\<open>tail\<close>. The model therefore keeps
  every element in an explicit store, addressed by a reference, and each method of
  \<^verbatim>\<open>USXSplitter\<close> is a function from the world before the call to the world after it.

  Strings are byte lists holding the UTF-8 form of Python's \<^verbatim>\<open>str\<close>; concatenation and
  equality agree with Python's on that form.
\<close>

type_synonym ref = nat

record element =
  tag :: string
  attrib :: "(string \<times> string) list"
  "text" :: "string option"
  tail :: "string option"
  children :: "ref list"

text \<open>
  A file on disk no longer shares anything with the store: it is the element tree as it
  stood when \<^verbatim>\<open>tree.write\<close> ran.
\<close>

datatype xml =
  Xml (xtag: string) (xattrib: "(string \<times> string) list") (xtext: "string option")
      (xchildren: "xml list") (xtail: "string option")

type_synonym path = "string list"

text \<open>
  The world: the store of element objects with the next free address, the files written
  so far (by path, as the list of the path's components) and the lines printed.
\<close>

record world =
  objs :: "ref \<Rightarrow> element"
  nxt :: ref
  files :: "path \<Rightarrow> xml option"
  stdout :: "string list"

text \<open>
  The exceptions the code can raise on a parsed document: \<^verbatim>\<open>int()\<close> on a string that is
  no integer literal, and the interpreter's recursion limit in the two recursive passes
  over an element tree.
\<close>

datatype error = ValueError string | RecursionError

text \<open>A scalar of the table of contents, as \<^verbatim>\<open>yaml.safe_load\<close> returns it.\<close>

datatype yaml = YInt int | YStr string

record toc_entry =
  "chapter" :: yaml
  chunks :: "yaml list"

section \<open>Python and ElementTree primitives\<close>

subsection \<open>Strings and integers\<close>

definition digit_char :: "nat \<Rightarrow> char" where
  "digit_char d = ''0123456789'' ! d"

fun digits :: "nat \<Rightarrow> string" where
  "digits n = (if n < 10 then [digit_char n] else digits (n div 10) @ [digit_char (n mod 10)])"

declare digits.simps [simp del]

text \<open>\<^verbatim>\<open>str(n)\<close> for an integer.\<close>

definition str_int :: "int \<Rightarrow> string" where
  "str_int i = (if i < 0 then CHR ''-'' # digits (nat (- i)) else digits (nat i))"

text \<open>\<^verbatim>\<open>f"{n:02d}"\<close>: at least two characters, the sign included, padded with zeros.\<close>

definition fmt02d :: "int \<Rightarrow> string" where
  "fmt02d i = (if 0 \<le> i \<and> i < 10 then CHR ''0'' # str_int i else str_int i)"

text \<open>
  \<^verbatim>\<open>int(s)\<close> for a string, on ASCII input: blanks around the literal are skipped, one sign
  is allowed, then decimal digits with single underscores between digits. Every other
  string raises \<^verbatim>\<open>ValueError\<close>. The function is Python's on ASCII strings only: Python
  also skips the blanks and reads the decimal digits of other scripts, which this function
  rejects, and recent interpreters refuse a literal of more than 4300 digits, which this
  function reads. The general theorems below take the number of a verse as \<open>verse_num\<close>
  gives it and do not depend on how a string is read; the examples read only short ASCII
  strings.
\<close>

definition int_space :: "char \<Rightarrow> bool" where
  "int_space c = (c \<in> set [CHR 0x09, CHR 0x0A, CHR 0x0B, CHR 0x0C, CHR 0x0D, CHR 0x20])"

definition is_digit :: "char \<Rightarrow> bool" where
  "is_digit c = (c \<in> set ''0123456789'')"

definition digit_val :: "char \<Rightarrow> nat" where
  "digit_val c = of_char c - 48"

fun parse_digits :: "string \<Rightarrow> nat \<Rightarrow> bool \<Rightarrow> nat option" where
  "parse_digits [] acc after_digit = (if after_digit then Some acc else None)"
| "parse_digits (c # cs) acc after_digit =
     (if is_digit c then parse_digits cs (10 * acc + digit_val c) True
      else if c = CHR ''_'' \<and> after_digit then parse_digits cs acc False
      else None)"

definition py_int :: "string \<Rightarrow> error + int" where
  "py_int s =
     (let t = rev (dropWhile int_space (rev (dropWhile int_space s)));
          negative = (t \<noteq> [] \<and> hd t = CHR ''-'');
          body = (if t \<noteq> [] \<and> (hd t = CHR ''-'' \<or> hd t = CHR ''+'') then tl t else t)
      in case parse_digits body 0 False of
           None \<Rightarrow> Inl (ValueError s)
         | Some n \<Rightarrow> Inr (if negative then - int n else int n))"

text \<open>\<^verbatim>\<open>str(v)\<close> and \<^verbatim>\<open>int(v)\<close> for a scalar of the table of contents.\<close>

fun py_str :: "yaml \<Rightarrow> string" where
  "py_str (YInt n) = str_int n"
| "py_str (YStr s) = s"

fun yaml_int :: "yaml \<Rightarrow> error + int" where
  "yaml_int (YInt n) = Inr n"
| "yaml_int (YStr s) = py_int s"

text \<open>
  \<^verbatim>\<open>not s.strip()\<close>: the string consists of white space only. Python's white space is
  the ASCII characters below and eighteen further code points, read here in their UTF-8
  form (U+0085, U+00A0, U+1680, U+2000 to U+200A, U+2028, U+2029, U+202F, U+205F, U+3000).
\<close>

definition ascii_space :: "char \<Rightarrow> bool" where
  "ascii_space c = (c \<in> set [CHR 0x09, CHR 0x0A, CHR 0x0B, CHR 0x0C, CHR 0x0D,
                                CHR 0x1C, CHR 0x1D, CHR 0x1E, CHR 0x1F, CHR 0x20])"

fun isspace_all :: "string \<Rightarrow> bool" where
  "isspace_all [] = True"
| "isspace_all (c # cs) =
     (if ascii_space c then isspace_all cs
      else if c = CHR 0xC2 then
        (case cs of d # r \<Rightarrow> (d = CHR 0x85 \<or> d = CHR 0xA0) \<and> isspace_all r | _ \<Rightarrow> False)
      else if c = CHR 0xE1 then
        (case cs of d # e # r \<Rightarrow> d = CHR 0x9A \<and> e = CHR 0x80 \<and> isspace_all r | _ \<Rightarrow> False)
      else if c = CHR 0xE2 then
        (case cs of
           d # e # r \<Rightarrow>
             ((d = CHR 0x80 \<and>
                 ((128 \<le> (of_char e :: nat) \<and> (of_char e :: nat) \<le> 138) \<or>
                  e = CHR 0xA8 \<or> e = CHR 0xA9 \<or> e = CHR 0xAF)) \<or>
              (d = CHR 0x81 \<and> e = CHR 0x9F)) \<and> isspace_all r
         | _ \<Rightarrow> False)
      else if c = CHR 0xE3 then
        (case cs of d # e # r \<Rightarrow> d = CHR 0x80 \<and> e = CHR 0x80 \<and> isspace_all r | _ \<Rightarrow> False)
      else False)"

text \<open>\<^verbatim>\<open>not t or not t.strip()\<close> for a text or tail, which may be \<^verbatim>\<open>None\<close>.\<close>

fun blank :: "string option \<Rightarrow> bool" where
  "blank None = True"
| "blank (Some t) = isspace_all t"

text \<open>Truth value of a string that may be \<^verbatim>\<open>None\<close>: neither \<^verbatim>\<open>None\<close> nor empty.\<close>

fun truthy :: "string option \<Rightarrow> bool" where
  "truthy None = False"
| "truthy (Some t) = (t \<noteq> [])"

subsection \<open>Elements in the store\<close>

text \<open>\<^verbatim>\<open>elem.get(key)\<close>.\<close>

definition get :: "element \<Rightarrow> string \<Rightarrow> string option" where
  "get e key = map_of (attrib e) key"

text \<open>
  \<^verbatim>\<open>ET.Element(tag, attrib)\<close> allocates a new object with its own copy of the attribute
  dictionary, no text, no tail and no children.
\<close>

definition Element :: "world \<Rightarrow> string \<Rightarrow> (string \<times> string) list \<Rightarrow> world \<times> ref" where
  "Element w t a =
     (w\<lparr>objs := (objs w)(nxt w := \<lparr>tag = t, attrib = a, text = None, tail = None, children = []\<rparr>),
        nxt := Suc (nxt w)\<rparr>, nxt w)"

text \<open>\<^verbatim>\<open>parent.append(child)\<close> stores the reference: the child is not copied.\<close>

definition elem_append :: "world \<Rightarrow> ref \<Rightarrow> ref \<Rightarrow> world" where
  "elem_append w parent child =
     w\<lparr>objs := (objs w)(parent := (objs w parent)\<lparr>children := children (objs w parent) @ [child]\<rparr>)\<rparr>"

definition SubElement :: "world \<Rightarrow> ref \<Rightarrow> string \<Rightarrow> (string \<times> string) list \<Rightarrow> world \<times> ref" where
  "SubElement w parent t a = (case Element w t a of (w', e) \<Rightarrow> (elem_append w' parent e, e))"

definition set_text :: "world \<Rightarrow> ref \<Rightarrow> string \<Rightarrow> world" where
  "set_text w r t = w\<lparr>objs := (objs w)(r := (objs w r)\<lparr>text := Some t\<rparr>)\<rparr>"

definition set_tail :: "world \<Rightarrow> ref \<Rightarrow> string \<Rightarrow> world" where
  "set_tail w r t = w\<lparr>objs := (objs w)(r := (objs w r)\<lparr>tail := Some t\<rparr>)\<rparr>"

definition print :: "world \<Rightarrow> string \<Rightarrow> world" where
  "print w line = w\<lparr>stdout := stdout w @ [line]\<rparr>"

section \<open>Chapter Extractor\<close>

text \<open>
  The loop of \<^verbatim>\<open>extract_chapter_content\<close> over the top-level elements, with its three
  variables; a \<^verbatim>\<open>break\<close> returns what has been collected. The branches are in the order
  of the source's \<^verbatim>\<open>if\<close>/\<^verbatim>\<open>elif\<close> chain. \<open>num\<close> is \<^verbatim>\<open>str(chapter_num)\<close>.
\<close>

fun chapter_scan ::
  "world \<Rightarrow> string \<Rightarrow> ref list \<Rightarrow> ref list \<Rightarrow> bool \<Rightarrow> bool \<Rightarrow> ref list \<times> bool" where
  "chapter_scan w num [] chapter_content in_target_chapter found_start =
     (chapter_content, found_start)"
| "chapter_scan w num (element # rest) chapter_content in_target_chapter found_start =
     (if tag (objs w element) = ''chapter'' then
        if get (objs w element) ''number'' = Some num \<and> get (objs w element) ''eid'' = None then
          chapter_scan w num rest (chapter_content @ [element]) True True
        else if get (objs w element) ''number'' \<noteq> Some num \<and> in_target_chapter then
          (chapter_content, found_start)
        else if get (objs w element) ''eid'' \<noteq> None \<and> in_target_chapter then
          (chapter_content @ [element], found_start)
        else chapter_scan w num rest chapter_content in_target_chapter found_start
      else if in_target_chapter then
        chapter_scan w num rest (chapter_content @ [element]) in_target_chapter found_start
      else chapter_scan w num rest chapter_content in_target_chapter found_start)"

definition extract_chapter_content :: "world \<Rightarrow> ref \<Rightarrow> yaml \<Rightarrow> ref list \<times> world" where
  "extract_chapter_content w usx_content chapter_num =
     (case chapter_scan w (py_str chapter_num) (children (objs w usx_content)) [] False False of
        (chapter_content, found_start) \<Rightarrow>
          (chapter_content,
           if \<not> found_start then
             print w (''Warning: Chapter '' @ py_str chapter_num @ '' start marker not found'')
           else w))"

section \<open>Chunk Extractor\<close>

text \<open>\<^verbatim>\<open>int(child.get('number', 0))\<close>: the default is the integer 0, not a string.\<close>

definition verse_num :: "element \<Rightarrow> error + int" where
  "verse_num child = (case get child ''number'' of None \<Rightarrow> Inr 0 | Some v \<Rightarrow> py_int v)"

text \<open>The first loop of \<^verbatim>\<open>extract_verses_from_para\<close>: it stops at the first verse in range.\<close>

fun has_verses_in_range :: "world \<Rightarrow> ref list \<Rightarrow> int \<Rightarrow> int \<Rightarrow> error + bool" where
  "has_verses_in_range w [] start_verse end_verse = Inr False"
| "has_verses_in_range w (child # rest) start_verse end_verse =
     (if tag (objs w child) = ''verse'' then
        (case verse_num (objs w child) of
           Inl err \<Rightarrow> Inl err
         | Inr n \<Rightarrow>
             if start_verse \<le> n \<and> n \<le> end_verse then Inr True
             else has_verses_in_range w rest start_verse end_verse)
      else has_verses_in_range w rest start_verse end_verse)"

text \<open>
  The second loop: children are appended to the new paragraph by reference, and the tails
  of the appended children are collected in \<^verbatim>\<open>current_text\<close>.
\<close>

fun copy_children ::
  "world \<Rightarrow> ref \<Rightarrow> ref list \<Rightarrow> int \<Rightarrow> int \<Rightarrow> string \<Rightarrow> error + world \<times> string" where
  "copy_children w para_copy [] start_verse end_verse current_text = Inr (w, current_text)"
| "copy_children w para_copy (child # rest) start_verse end_verse current_text =
     (if tag (objs w child) = ''verse'' then
        (case verse_num (objs w child) of
           Inl err \<Rightarrow> Inl err
         | Inr n \<Rightarrow>
             if start_verse \<le> n \<and> n \<le> end_verse then
               copy_children (elem_append w para_copy child) para_copy rest start_verse end_verse
                 (if truthy (tail (objs w child)) then current_text @ the (tail (objs w child))
                  else current_text)
             else copy_children w para_copy rest start_verse end_verse current_text)
      else
        copy_children (elem_append w para_copy child) para_copy rest start_verse end_verse
          (if truthy (tail (objs w child)) then current_text @ the (tail (objs w child))
           else current_text))"

definition extract_verses_from_para ::
  "world \<Rightarrow> ref \<Rightarrow> int \<Rightarrow> int \<Rightarrow> error + world \<times> ref option" where
  "extract_verses_from_para w para_element start_verse end_verse =
     (case has_verses_in_range w (children (objs w para_element)) start_verse end_verse of
        Inl err \<Rightarrow> Inl err
      | Inr False \<Rightarrow> Inr (w, None)
      | Inr True \<Rightarrow>
          (case Element w (tag (objs w para_element)) (attrib (objs w para_element)) of
             (w1, para_copy) \<Rightarrow>
               (case copy_children w1 para_copy (children (objs w1 para_element))
                       start_verse end_verse [] of
                  Inl err \<Rightarrow> Inl err
                | Inr (w2, collected) \<Rightarrow>
                    (let current_text =
                           (if truthy (text (objs w2 para_element))
                            then the (text (objs w2 para_element)) @ collected else collected);
                         w3 = (if \<not> isspace_all current_text
                               then set_text w2 para_copy current_text else w2)
                     in if 0 < length (children (objs w3 para_copy)) \<or>
                           (truthy (text (objs w3 para_copy)) \<and> \<not> blank (text (objs w3 para_copy)))
                        then Inr (w3, Some para_copy)
                        else Inr (w3, None)))))"

text \<open>
  The loop of \<^verbatim>\<open>extract_verses_for_chunk\<close>. The test \<^verbatim>\<open>if verses_in_para:\<close> is the truth
  value of an element, which ElementTree defines as "has at least one child".
\<close>

fun chunk_scan ::
  "world \<Rightarrow> ref list \<Rightarrow> int \<Rightarrow> int \<Rightarrow> ref list \<Rightarrow> error + world \<times> ref list" where
  "chunk_scan w [] start_verse end_verse chunk_content = Inr (w, chunk_content)"
| "chunk_scan w (element # rest) start_verse end_verse chunk_content =
     (if tag (objs w element) = ''para'' then
        (case extract_verses_from_para w element start_verse end_verse of
           Inl err \<Rightarrow> Inl err
         | Inr (w', None) \<Rightarrow> chunk_scan w' rest start_verse end_verse chunk_content
         | Inr (w', Some verses_in_para) \<Rightarrow>
             if 0 < length (children (objs w' verses_in_para)) then
               chunk_scan w' rest start_verse end_verse (chunk_content @ [verses_in_para])
             else chunk_scan w' rest start_verse end_verse chunk_content)
      else if tag (objs w element) = ''chapter'' \<and> get (objs w element) ''eid'' = None then
        chunk_scan w rest start_verse end_verse (chunk_content @ [element])
      else chunk_scan w rest start_verse end_verse chunk_content)"

definition extract_verses_for_chunk ::
  "world \<Rightarrow> ref list \<Rightarrow> int \<Rightarrow> int option \<Rightarrow> error + world \<times> ref list" where
  "extract_verses_for_chunk w chapter_content start_verse end_verse =
     chunk_scan w chapter_content start_verse
       (case end_verse of None \<Rightarrow> start_verse | Some e \<Rightarrow> e) []"

section \<open>Title Extractor\<close>

text \<open>\<^verbatim>\<open>value in [...]\<close> for an attribute value that may be \<^verbatim>\<open>None\<close>.\<close>

fun in_list :: "string option \<Rightarrow> string list \<Rightarrow> bool" where
  "in_list None styles = False"
| "in_list (Some v) styles = (v \<in> set styles)"

definition title_styles :: "string list" where
  "title_styles = [''s1'', ''s2'', ''s3'', ''mt1'', ''mt2'', ''mt3'']"

fun extract_title_content :: "world \<Rightarrow> ref list \<Rightarrow> ref list" where
  "extract_title_content w [] = []"
| "extract_title_content w (element # rest) =
     (if tag (objs w element) = ''para'' \<and> in_list (get (objs w element) ''style'') title_styles then
        element # extract_title_content w rest
      else if tag (objs w element) = ''chapter'' \<and> get (objs w element) ''eid'' = None then
        element # extract_title_content w rest
      else extract_title_content w rest)"

section \<open>Document Writer\<close>

text \<open>
  \<^verbatim>\<open>_indent_xml\<close> calls itself on every child, so its depth of recursion is the depth of
  the tree; the interpreter raises \<^verbatim>\<open>RecursionError\<close> when its stack is used up. The first
  argument is the number of calls the stack still has room for. After the loop, Python's
  variable \<^verbatim>\<open>child\<close> still names the last child, whose tail is then overwritten.
\<close>

fun indent_xml :: "nat \<Rightarrow> world \<Rightarrow> ref \<Rightarrow> nat \<Rightarrow> error + world"
  and indent_children :: "nat \<Rightarrow> world \<Rightarrow> ref list \<Rightarrow> nat \<Rightarrow> error + world" where
  "indent_xml 0 w elem level = Inl RecursionError"
| "indent_xml (Suc depth) w elem level =
     (let i = CHR 0x0A # concat (replicate level ''  '') in
      if 0 < length (children (objs w elem)) then
        (let w1 = (if blank (text (objs w elem)) then set_text w elem (i @ ''  '') else w);
             w2 = (if blank (tail (objs w1 elem)) then set_tail w1 elem i else w1)
         in case indent_children depth w2 (children (objs w2 elem)) (level + 1) of
              Inl err \<Rightarrow> Inl err
            | Inr w3 \<Rightarrow>
                (let child = last (children (objs w3 elem))
                 in Inr (if blank (tail (objs w3 child)) then set_tail w3 child i else w3)))
      else Inr (if level \<noteq> 0 \<and> blank (tail (objs w elem)) then set_tail w elem i else w))"
| "indent_children depth w [] level = Inr w"
| "indent_children depth w (child # rest) level =
     (case indent_xml depth w child level of
        Inl err \<Rightarrow> Inl err
      | Inr w' \<Rightarrow> indent_children depth w' rest level)"

text \<open>
  \<^verbatim>\<open>tree.write\<close> serialises the tree below the root as it stands in the store; the
  serialiser recurses on the children as well. The file holds the result.
\<close>

fun serialize :: "nat \<Rightarrow> world \<Rightarrow> ref \<Rightarrow> error + xml"
  and serialize_children :: "nat \<Rightarrow> world \<Rightarrow> ref list \<Rightarrow> error + xml list" where
  "serialize 0 w elem = Inl RecursionError"
| "serialize (Suc depth) w elem =
     (case serialize_children depth w (children (objs w elem)) of
        Inl err \<Rightarrow> Inl err
      | Inr cs \<Rightarrow>
          Inr (Xml (tag (objs w elem)) (attrib (objs w elem)) (text (objs w elem)) cs
                   (tail (objs w elem))))"
| "serialize_children depth w [] = Inr []"
| "serialize_children depth w (child # rest) =
     (case serialize depth w child of
        Inl err \<Rightarrow> Inl err
      | Inr x \<Rightarrow>
          (case serialize_children depth w rest of
             Inl err \<Rightarrow> Inl err
           | Inr xs \<Rightarrow> Inr (x # xs)))"

definition write_tree :: "nat \<Rightarrow> world \<Rightarrow> ref \<Rightarrow> path \<Rightarrow> error + world" where
  "write_tree lim w root file_path =
     (case serialize lim w root of
        Inl err \<Rightarrow> Inl err
      | Inr x \<Rightarrow> Inr (w\<lparr>files := (files w)(file_path := Some x)\<rparr>))"

text \<open>\<^verbatim>\<open>str(path)\<close> for a relative path: its components joined by a slash.\<close>

fun path_str :: "path \<Rightarrow> string" where
  "path_str [] = ''.''"
| "path_str [c] = c"
| "path_str (c # cs) = c @ ''/'' @ path_str cs"

definition BOOK_TITLE :: string where
  "BOOK_TITLE = ''- Biblica'' @ [CHR 0xC2, CHR 0xAE] @ '' Open Vietnamese Contemporary Bible 2015 (Biblica'' @ [CHR 0xC2, CHR 0xAE] @ '' Thi'' @ [CHR 0xC3, CHR 0xAA] @ ''n Ban Kinh Th'' @ [CHR 0xC3, CHR 0xA1] @ ''nh Hi'' @ [CHR 0xE1, CHR 0xBB, CHR 0x87] @ ''n '' @ [CHR 0xC4, CHR 0x90, CHR 0xE1, CHR 0xBA, CHR 0xA1] @ ''i)''"

text \<open>
  \<^verbatim>\<open>any(elem.tag == 'chapter' and elem.get('eid') for elem in content)\<close>: the end-id counts
  when it is a non-empty string.
\<close>

definition has_chapter_end :: "world \<Rightarrow> ref list \<Rightarrow> bool" where
  "has_chapter_end w content =
     list_ex (\<lambda>elem. tag (objs w elem) = ''chapter'' \<and> truthy (get (objs w elem) ''eid'')) content"

text \<open>
  \<^verbatim>\<open>create_chunk_file\<close>. Directories are not modelled: a file is known by its path. The
  book code and the book title are the literals of the source; the method has no other
  source for them. \<open>lim\<close> is the room on the interpreter's stack at the two recursive
  passes.
\<close>

definition create_chunk_file ::
  "nat \<Rightarrow> path \<Rightarrow> world \<Rightarrow> int \<Rightarrow> int \<Rightarrow> ref list \<Rightarrow> bool \<Rightarrow> error + world" where
  "create_chunk_file lim output_dir w chapter_num chunk_num content is_title =
     (let chapter_dir = output_dir @ [fmt02d chapter_num];
          filename = (if is_title then ''title.usx'' else fmt02d chunk_num @ ''.usx'');
          file_path = chapter_dir @ [filename];
          (w1, usx_root) = Element w ''usx'' [(''version'', ''3.0'')];
          w2 = (if \<not> is_title then
                  (case SubElement w1 usx_root ''book'' [(''code'', ''REV''), (''style'', ''id'')] of
                     (w', book_info) \<Rightarrow> set_text w' book_info BOOK_TITLE)
                else w1);
          w3 = fold (\<lambda>element w'. elem_append w' usx_root element) content w2;
          w4 = (if \<not> is_title then
                  (if \<not> has_chapter_end w3 content then
                     fst (SubElement w3 usx_root ''chapter''
                            [(''eid'', ''REV '' @ str_int chapter_num)])
                   else w3)
                else w3)
      in case indent_xml lim w4 usx_root 0 of
           Inl err \<Rightarrow> Inl err
         | Inr w5 \<Rightarrow>
             (case write_tree lim w5 usx_root file_path of
                Inl err \<Rightarrow> Inl err
              | Inr w6 \<Rightarrow> Inr (print w6 (''Created: '' @ path_str file_path))))"

section \<open>Driver\<close>

text \<open>
  An exception leaves the driver at once; what was written and printed before stays.
  The driver's functions therefore return either the error with the world it left
  behind, or the world after a normal return. (The store of that world is the one before
  the failing call: the run ends there and never reads it again.)
\<close>

fun process_chunks ::
  "nat \<Rightarrow> path \<Rightarrow> world \<Rightarrow> yaml \<Rightarrow> ref list \<Rightarrow> yaml list \<Rightarrow> error \<times> world + world" where
  "process_chunks lim output_dir w chapter_num chapter_content [] = Inr w"
| "process_chunks lim output_dir w chapter_num chapter_content (chunk # rest) =
     (if chunk = YStr ''title'' then
        (let title_content = extract_title_content w chapter_content in
         case yaml_int chapter_num of
           Inl err \<Rightarrow> Inl (err, w)
         | Inr n \<Rightarrow>
             (case create_chunk_file lim output_dir w n 0 title_content True of
                Inl err \<Rightarrow> Inl (err, w)
              | Inr w' \<Rightarrow> process_chunks lim output_dir w' chapter_num chapter_content rest))
      else
        (case yaml_int chunk of
           Inl err \<Rightarrow> Inl (err, w)
         | Inr chunk_num \<Rightarrow>
             (case extract_verses_for_chunk w chapter_content chunk_num None of
                Inl err \<Rightarrow> Inl (err, w)
              | Inr (w1, chunk_content) \<Rightarrow>
                  (case yaml_int chapter_num of
                     Inl err \<Rightarrow> Inl (err, w)
                   | Inr n \<Rightarrow>
                       (case create_chunk_file lim output_dir w1 n chunk_num chunk_content False of
                          Inl err \<Rightarrow> Inl (err, w)
                        | Inr w' \<Rightarrow>
                            process_chunks lim output_dir w' chapter_num chapter_content rest)))))"

definition process_chapter ::
  "nat \<Rightarrow> path \<Rightarrow> ref \<Rightarrow> world \<Rightarrow> toc_entry \<Rightarrow> error \<times> world + world" where
  "process_chapter lim output_dir usx_content w chapter_info =
     (let chapter_num = chapter chapter_info;
          w1 = print w (''Processing chapter '' @ py_str chapter_num @ '' with '' @
                        str_int (int (length (chunks chapter_info))) @ '' chunks'')
      in case extract_chapter_content w1 usx_content chapter_num of
           (chapter_content, w2) \<Rightarrow>
             if chapter_content = [] then
               Inr (print w2 (''Warning: No content found for chapter '' @ py_str chapter_num))
             else process_chunks lim output_dir w2 chapter_num chapter_content
                    (chunks chapter_info))"

definition front_styles :: "string list" where
  "front_styles = [''h'', ''toc1'', ''toc2'', ''toc3'', ''mt1'', ''mt2'', ''mt3'']"

text \<open>The loop of \<^verbatim>\<open>process_front_matter\<close>, which stops at the first chapter element.\<close>

fun front_scan :: "world \<Rightarrow> ref list \<Rightarrow> ref list \<Rightarrow> ref list" where
  "front_scan w [] front_content = front_content"
| "front_scan w (element # rest) front_content =
     (if tag (objs w element) \<in> set [''book'', ''para''] \<and>
         in_list (get (objs w element) ''style'') front_styles then
        front_scan w rest (front_content @ [element])
      else if tag (objs w element) = ''chapter'' then front_content
      else front_scan w rest front_content)"

definition process_front_matter ::
  "nat \<Rightarrow> path \<Rightarrow> ref \<Rightarrow> world \<Rightarrow> toc_entry \<Rightarrow> error \<times> world + world" where
  "process_front_matter lim output_dir usx_content w front_info =
     (let w1 = print w ''Processing front matter...'';
          front_dir = output_dir @ [''front''];
          front_content = front_scan w1 (children (objs w1 usx_content)) []
      in if front_content \<noteq> [] then
           (case Element w1 ''usx'' [(''version'', ''3.0'')] of
              (w2, usx_root) \<Rightarrow>
                (let w3 = fold (\<lambda>element w'. elem_append w' usx_root element) front_content w2
                 in case indent_xml lim w3 usx_root 0 of
                      Inl err \<Rightarrow> Inl (err, w1)
                    | Inr w4 \<Rightarrow>
                        (case write_tree lim w4 usx_root (front_dir @ [''title.usx'']) of
                           Inl err \<Rightarrow> Inl (err, w1)
                         | Inr w5 \<Rightarrow>
                             Inr (print w5 (''Created: '' @ path_str (front_dir @ [''title.usx'']))))))
         else Inr w1)"

fun process_toc ::
  "nat \<Rightarrow> path \<Rightarrow> ref \<Rightarrow> world \<Rightarrow> toc_entry list \<Rightarrow> error \<times> world + world" where
  "process_toc lim output_dir usx_content w [] = Inr w"
| "process_toc lim output_dir usx_content w (chapter_info # rest) =
     (case (if chapter chapter_info = YStr ''front''
            then process_front_matter lim output_dir usx_content w chapter_info
            else process_chapter lim output_dir usx_content w chapter_info) of
        Inl err \<Rightarrow> Inl err
      | Inr w' \<Rightarrow> process_toc lim output_dir usx_content w' rest)"

text \<open>
  \<^verbatim>\<open>run\<close>. The two input files are taken as already parsed: \<open>toc_data\<close> is what
  \<^verbatim>\<open>load_toc\<close> stores and \<open>usx_content\<close> is the root element that \<^verbatim>\<open>load_usx\<close> stores, its
  tree being in the store.
\<close>

definition run ::
  "nat \<Rightarrow> path \<Rightarrow> toc_entry list \<Rightarrow> ref \<Rightarrow> world \<Rightarrow> error \<times> world + world" where
  "run lim output_dir toc_data usx_content w =
     (let w1 = print w ''Starting USX splitting process...'';
          w2 = print w1 (''Loaded TOC with '' @ str_int (int (length toc_data)) @ '' chapters'');
          w3 = print w2 (''Loaded USX file: '' @ tag (objs w2 usx_content))
      in case process_toc lim output_dir usx_content w3 toc_data of
           Inl err \<Rightarrow> Inl err
         | Inr w4 \<Rightarrow> Inr (print w4 ''USX splitting completed!''))"

section \<open>Command line\<close>

record args =
  usx_file :: string
  toc_file :: string
  output_dir :: path
  book_code :: string
  book_title :: string
  verbose :: bool

text \<open>
  The text of an exception as \<^verbatim>\<open>print\<close> shows it (for a string without quotes or
  escapes).
\<close>

fun error_text :: "error \<Rightarrow> string" where
  "error_text (ValueError s) =
     ''invalid literal for int() with base 10: '' @ [CHR 0x27] @ s @ [CHR 0x27]"
| "error_text RecursionError = ''maximum recursion depth exceeded''"

text \<open>
  \<^verbatim>\<open>main\<close> of \<^verbatim>\<open>cli.py\<close>, after the arguments are parsed. \<open>usx_files\<close> and \<open>toc_files\<close> give
  the parsed content of the input files that exist. The result is the world left behind
  and the exit status. The splitter is built from the three positional arguments only.
\<close>

definition main ::
  "nat \<Rightarrow> args \<Rightarrow> (string \<Rightarrow> ref option) \<Rightarrow> (string \<Rightarrow> toc_entry list option) \<Rightarrow> world
     \<Rightarrow> world \<times> int" where
  "main lim a usx_files toc_files w =
     (case usx_files (usx_file a) of
        None \<Rightarrow>
          (print w (''Error: USX file '' @ [CHR 0x27] @ usx_file a @ [CHR 0x27] @ '' not found''), 1)
      | Some usx_content \<Rightarrow>
          (case toc_files (toc_file a) of
             None \<Rightarrow>
               (print w (''Error: TOC file '' @ [CHR 0x27] @ toc_file a @ [CHR 0x27] @ '' not found''), 1)
           | Some toc_data \<Rightarrow>
               (case run lim (output_dir a) toc_data usx_content w of
                  Inl (err, w') \<Rightarrow> (print w' (''Error during conversion: '' @ error_text err), 1)
                | Inr w' \<Rightarrow>
                    (print (print w' (CHR 0x0A # ''Conversion completed successfully!''))
                       (''Output files created in: '' @ path_str (output_dir a)), 0))))"

section \<open>Notions used in the statements\<close>

text \<open>
  A start marker of chapter \<open>num\<close>: a chapter element with that number and no end-id.
\<close>

definition is_start_marker :: "world \<Rightarrow> string \<Rightarrow> ref \<Rightarrow> bool" where
  "is_start_marker w num r =
     (tag (objs w r) = ''chapter'' \<and> get (objs w r) ''number'' = Some num \<and>
      get (objs w r) ''eid'' = None)"

text \<open>
  The number of a verse marker is an integer (or absent, which counts as 0) and lies in
  the range.
\<close>

definition in_range :: "world \<Rightarrow> int \<Rightarrow> int \<Rightarrow> ref \<Rightarrow> bool" where
  "in_range w start_verse end_verse c =
     (case verse_num (objs w c) of
        Inl err \<Rightarrow> False
      | Inr n \<Rightarrow> start_verse \<le> n \<and> n \<le> end_verse)"

text \<open>Some verse marker of the paragraph has an integer number in the range.\<close>

definition some_verse_in_range :: "world \<Rightarrow> ref \<Rightarrow> int \<Rightarrow> int \<Rightarrow> bool" where
  "some_verse_in_range w p start_verse end_verse =
     list_ex (\<lambda>c. tag (objs w c) = ''verse'' \<and> in_range w start_verse end_verse c)
       (children (objs w p))"

text \<open>Every verse marker of the paragraph has an integer number, or none.\<close>

definition numeric_verses :: "world \<Rightarrow> ref \<Rightarrow> bool" where
  "numeric_verses w p =
     list_all (\<lambda>c. if tag (objs w c) = ''verse''
                    then (case verse_num (objs w c) of Inl err \<Rightarrow> False | Inr n \<Rightarrow> True)
                    else True)
       (children (objs w p))"

text \<open>
  The children a paragraph copy receives: the verse markers in range and every child that
  is no verse marker. \<open>tail_text\<close> is what a child adds to \<^verbatim>\<open>current_text\<close>.
\<close>

definition keeps :: "world \<Rightarrow> int \<Rightarrow> int \<Rightarrow> ref \<Rightarrow> bool" where
  "keeps w start_verse end_verse c =
     (if tag (objs w c) = ''verse'' then in_range w start_verse end_verse c else True)"

definition tail_text :: "world \<Rightarrow> ref \<Rightarrow> string" where
  "tail_text w c = (case tail (objs w c) of None \<Rightarrow> [] | Some t \<Rightarrow> t)"

definition filtered_copy :: "world \<Rightarrow> ref \<Rightarrow> int \<Rightarrow> int \<Rightarrow> element" where
  "filtered_copy w p start_verse end_verse =
     (let kept = filter (keeps w start_verse end_verse) (children (objs w p));
          current_text = (case text (objs w p) of None \<Rightarrow> [] | Some t \<Rightarrow> t) @
                         concat (map (tail_text w) kept)
      in \<lparr>tag = tag (objs w p), attrib = attrib (objs w p),
          text = (if isspace_all current_text then None else Some current_text),
          tail = None, children = kept\<rparr>)"

text \<open>A verse marker that carries no number attribute.\<close>

definition unnumbered_verse :: "world \<Rightarrow> ref \<Rightarrow> bool" where
  "unnumbered_verse w c = (tag (objs w c) = ''verse'' \<and> get (objs w c) ''number'' = None)"

text \<open>
  The listed elements and their children are objects of the store. (A reference held by
  a Python object always is.)
\<close>

definition allocated :: "world \<Rightarrow> ref list \<Rightarrow> bool" where
  "allocated w rs =
     list_all (\<lambda>r. r < nxt w \<and> list_all (\<lambda>c. c < nxt w) (children (objs w r))) rs"

text \<open>The top-level nodes of a written file, each by its tag and attributes.\<close>

definition top_level :: "xml \<Rightarrow> (string \<times> (string \<times> string) list) list" where
  "top_level x = map (\<lambda>c. (xtag c, xattrib c)) (xchildren x)"

text \<open>The top-level nodes of the file at a path, if there is one.\<close>

definition file_outline ::
  "path \<Rightarrow> world \<Rightarrow> (string \<times> (string \<times> string) list) list option" where
  "file_outline p w = map_option top_level (files w p)"

text \<open>The file at a path after a call of the driver, whether the call returned or raised.\<close>

definition written :: "error \<times> world + world \<Rightarrow> path \<Rightarrow> xml option" where
  "written r p = (case r of Inl (err, w) \<Rightarrow> files w p | Inr w \<Rightarrow> files w p)"

text \<open>
  Two worlds have the same shape when they differ in the text and tail of elements only:
  the tags, attributes and child lists agree, and nothing was allocated, written or
  printed between them.
\<close>

definition same_shape :: "world \<Rightarrow> world \<Rightarrow> bool" where
  "same_shape w w' =
     (nxt w' = nxt w \<and> files w' = files w \<and> stdout w' = stdout w \<and>
      (\<forall>x. tag (objs w' x) = tag (objs w x) \<and> attrib (objs w' x) = attrib (objs w x) \<and>
           children (objs w' x) = children (objs w x)))"

text \<open>
  The objects below an address have the same tags, attributes and child lists in two
  worlds.
\<close>

definition agree_below :: "nat \<Rightarrow> world \<Rightarrow> world \<Rightarrow> bool" where
  "agree_below n w w' =
     (\<forall>x<n. tag (objs w' x) = tag (objs w x) \<and> attrib (objs w' x) = attrib (objs w x) \<and>
            children (objs w' x) = children (objs w x))"

text \<open>
  The tree below an element has at most \<open>d\<close> levels: a recursive pass over it needs at most
  \<open>d\<close> nested calls.
\<close>

fun depth_within :: "nat \<Rightarrow> world \<Rightarrow> ref \<Rightarrow> bool" where
  "depth_within 0 w r = False"
| "depth_within (Suc d) w r = list_all (depth_within d w) (children (objs w r))"

text \<open>Every child of an object of the store is an object of the store.\<close>

definition closed :: "world \<Rightarrow> bool" where
  "closed w = list_all (\<lambda>x. list_all (\<lambda>c. c < nxt w) (children (objs w x))) [0..<nxt w]"

text \<open>
  The top-level nodes that a chunk holds for a chapter's content and a verse range: one
  paragraph for every paragraph with a verse in range, and the chapter start markers.
\<close>

fun chunk_outline ::
  "world \<Rightarrow> ref list \<Rightarrow> int \<Rightarrow> int \<Rightarrow> (string \<times> (string \<times> string) list) list" where
  "chunk_outline w [] start_verse end_verse = []"
| "chunk_outline w (e # rest) start_verse end_verse =
     (if tag (objs w e) = ''para'' then
        (if some_verse_in_range w e start_verse end_verse then [(''para'', attrib (objs w e))]
         else [])
      else if tag (objs w e) = ''chapter'' \<and> get (objs w e) ''eid'' = None then
        [(''chapter'', attrib (objs w e))]
      else []) @ chunk_outline w rest start_verse end_verse"

text \<open>
  What the chunk loop leaves behind: no existing object has changed, each new object has
  its children among the children of an element of the content, the chunk has the outline
  above, and each of its entries is a chapter start marker of the content (the element
  itself) or a new element, the filtered copy of a paragraph of the content that has a
  verse in range.
\<close>

definition chunk_post ::
  "world \<Rightarrow> ref list \<Rightarrow> int \<Rightarrow> int \<Rightarrow> world \<Rightarrow> ref list \<Rightarrow> bool" where
  "chunk_post w content start_verse end_verse w' new =
     (nxt w \<le> nxt w' \<and> files w' = files w \<and> stdout w' = stdout w \<and>
      (\<forall>x. x < nxt w \<or> nxt w' \<le> x \<longrightarrow> objs w' x = objs w x) \<and>
      (\<forall>r\<in>set new. r < nxt w') \<and>
      map (\<lambda>c. (tag (objs w' c), attrib (objs w' c))) new =
        chunk_outline w content start_verse end_verse \<and>
      (\<forall>x. nxt w \<le> x \<and> x < nxt w' \<longrightarrow>
           (\<exists>p\<in>set content. set (children (objs w' x)) \<subseteq> set (children (objs w p)))) \<and>
      (\<forall>r\<in>set new.
           (r \<in> set content \<and> r < nxt w \<and> tag (objs w r) = ''chapter'' \<and>
            get (objs w r) ''eid'' = None) \<or>
           (nxt w \<le> r \<and>
            (\<exists>p\<in>set content. tag (objs w p) = ''para'' \<and>
                 some_verse_in_range w p start_verse end_verse \<and>
                 objs w' r = filtered_copy w p start_verse end_verse))))"

text \<open>A top-level node of a file is a chapter end marker: a chapter element with an end-id.\<close>

definition is_end_marker :: "string \<times> (string \<times> string) list \<Rightarrow> bool" where
  "is_end_marker n = (fst n = ''chapter'' \<and> map_of (snd n) ''eid'' \<noteq> None)"

text \<open>The path of the file that \<^verbatim>\<open>create_chunk_file\<close> writes.\<close>

definition chunk_path :: "path \<Rightarrow> int \<Rightarrow> int \<Rightarrow> bool \<Rightarrow> path" where
  "chunk_path out chapter_num chunk_num is_title =
     (out @ [fmt02d chapter_num]) @
     [if is_title then ''title.usx'' else fmt02d chunk_num @ ''.usx'']"

text \<open>
  The world in which \<^verbatim>\<open>create_chunk_file\<close> calls \<^verbatim>\<open>_indent_xml\<close>: the new root is at the
  address that was free before the call, and the book node, the content and the
  synthesized end marker are its children.
\<close>

definition assembled :: "world \<Rightarrow> int \<Rightarrow> ref list \<Rightarrow> bool \<Rightarrow> world" where
  "assembled w chapter_num content is_title =
     (let (w1, usx_root) = Element w ''usx'' [(''version'', ''3.0'')];
          w2 = (if \<not> is_title then
                  (case SubElement w1 usx_root ''book'' [(''code'', ''REV''), (''style'', ''id'')] of
                     (w', book_info) \<Rightarrow> set_text w' book_info BOOK_TITLE)
                else w1);
          w3 = fold (\<lambda>element w'. elem_append w' usx_root element) content w2;
          w4 = (if \<not> is_title then
                  (if \<not> has_chapter_end w3 content then
                     fst (SubElement w3 usx_root ''chapter''
                            [(''eid'', ''REV '' @ str_int chapter_num)])
                   else w3)
                else w3)
      in w4)"

text \<open>The element at an address after a call that may raise.\<close>

definition element_after :: "error + world \<Rightarrow> ref \<Rightarrow> element option" where
  "element_after r x = (case r of Inl err \<Rightarrow> None | Inr w \<Rightarrow> Some (objs w x))"

section \<open>An example document\<close>

definition node ::
  "string \<Rightarrow> (string \<times> string) list \<Rightarrow> string option \<Rightarrow> string option \<Rightarrow> ref list \<Rightarrow> element" where
  "node t a tx tl' cs = \<lparr>tag = t, attrib = a, text = tx, tail = tl', children = cs\<rparr>"

definition world_of :: "element list \<Rightarrow> world" where
  "world_of es =
     \<lparr>objs = (\<lambda>r. if r < length es then es ! r else node [] [] None None []),
      nxt = length es, files = (\<lambda>p. None), stdout = []\<rparr>"

text \<open>
  A book element, two front-matter paragraphs, chapter 1 with a section heading and a
  paragraph of five verses, and chapter 2 with one verse; both chapters are closed by an
  end marker as USX 3.0 writes it, with an end-id and no number.
\<close>

definition example_doc :: world where
  "example_doc = world_of
     [node ''usx'' [(''version'', ''3.0'')] None None [1, 2, 3, 4, 5, 6, 12, 13, 14, 16],
      node ''book'' [(''code'', ''REV''), (''style'', ''id'')] (Some ''Revelation'') None [],
      node ''para'' [(''style'', ''h'')] (Some ''Revelation'') None [],
      node ''para'' [(''style'', ''mt1'')] (Some ''The Revelation'') None [],
      node ''chapter'' [(''number'', ''1''), (''style'', ''c''), (''sid'', ''REV 1'')] None None [],
      node ''para'' [(''style'', ''s1'')] (Some ''Prologue'') None [],
      node ''para'' [(''style'', ''p'')] (Some ''Intro '') None [7, 8, 9, 10, 11],
      node ''verse'' [(''number'', ''1''), (''style'', ''v'')] None (Some ''one '') [],
      node ''verse'' [(''number'', ''2''), (''style'', ''v'')] None (Some ''two '') [],
      node ''verse'' [(''number'', ''3''), (''style'', ''v'')] None (Some ''three '') [],
      node ''verse'' [(''number'', ''4''), (''style'', ''v'')] None (Some ''four '') [],
      node ''verse'' [(''number'', ''5''), (''style'', ''v'')] None (Some ''five'') [],
      node ''chapter'' [(''eid'', ''REV 1'')] None None [],
      node ''chapter'' [(''number'', ''2''), (''style'', ''c''), (''sid'', ''REV 2'')] None None [],
      node ''para'' [(''style'', ''p'')] None None [15],
      node ''verse'' [(''number'', ''1''), (''style'', ''v'')] None (Some ''again'') [],
      node ''chapter'' [(''eid'', ''REV 2'')] None None []]"

text \<open>
  A paragraph whose first verse marker has no number attribute, followed by verse 1 and a
  note.
\<close>

definition verse0_doc :: world where
  "verse0_doc = world_of
     [node ''para'' [(''style'', ''p'')] None None [1, 2, 3],
      node ''verse'' [(''style'', ''v'')] None (Some ''zero '') [],
      node ''verse'' [(''number'', ''1''), (''style'', ''v'')] None (Some ''one '') [],
      node ''note'' [(''style'', ''f'')] (Some ''a note'') (Some '' end'') []]"

text \<open>
  A paragraph whose first verse marker is a verse bridge, \<^verbatim>\<open><verse number="1-2"/>\<close>,
  followed by verse 3.
\<close>

definition bridge_doc :: world where
  "bridge_doc = world_of
     [node ''para'' [(''style'', ''p'')] None None [1, 2],
      node ''verse'' [(''number'', ''1-2''), (''style'', ''v'')] None (Some ''one and two '') [],
      node ''verse'' [(''number'', ''3''), (''style'', ''v'')] None (Some ''three'') []]"

text \<open>
  A run from the command line with \<^verbatim>\<open>--book-code GEN\<close>: the table of contents asks for
  verse 3 of chapter 1 of the example document.
\<close>

definition gen_args :: args where
  "gen_args = \<lparr>usx_file = ''GEN.usx'', toc_file = ''toc.yml'', output_dir = [''out''],
                book_code = ''GEN'', book_title = ''Genesis'', verbose = False\<rparr>"

definition gen_usx_files :: "string \<Rightarrow> ref option" where
  "gen_usx_files f = (if f = ''GEN.usx'' then Some 0 else None)"

definition gen_toc_files :: "string \<Rightarrow> toc_entry list option" where
  "gen_toc_files f =
     (if f = ''toc.yml'' then Some [\<lparr>chapter = YInt 1, chunks = [YInt 3]\<rparr>] else None)"


section \<open>The store operations\<close>

lemma elem_append_simps [simp]:
  "objs (elem_append w p c) =
     (objs w)(p := (objs w p)\<lparr>children := children (objs w p) @ [c]\<rparr>)"
  "nxt (elem_append w p c) = nxt w"
  "files (elem_append w p c) = files w"
  "stdout (elem_append w p c) = stdout w"
  by (simp_all add: elem_append_def)

lemma set_text_simps [simp]:
  "objs (set_text w r t) = (objs w)(r := (objs w r)\<lparr>text := Some t\<rparr>)"
  "nxt (set_text w r t) = nxt w"
  "files (set_text w r t) = files w"
  "stdout (set_text w r t) = stdout w"
  by (simp_all add: set_text_def)

lemma set_tail_simps [simp]:
  "objs (set_tail w r t) = (objs w)(r := (objs w r)\<lparr>tail := Some t\<rparr>)"
  "nxt (set_tail w r t) = nxt w"
  "files (set_tail w r t) = files w"
  "stdout (set_tail w r t) = stdout w"
  by (simp_all add: set_tail_def)

lemma print_simps [simp]:
  "objs (print w l) = objs w"
  "nxt (print w l) = nxt w"
  "files (print w l) = files w"
  "stdout (print w l) = stdout w @ [l]"
  by (simp_all add: print_def)

lemma Element_simps [simp]:
  "snd (Element w t a) = nxt w"
  "objs (fst (Element w t a)) =
     (objs w)(nxt w := \<lparr>tag = t, attrib = a, text = None, tail = None, children = []\<rparr>)"
  "nxt (fst (Element w t a)) = Suc (nxt w)"
  "files (fst (Element w t a)) = files w"
  "stdout (fst (Element w t a)) = stdout w"
  by (simp_all add: Element_def)

lemma SubElement_simps [simp]:
  "snd (SubElement w p t a) = nxt w"
  "objs (fst (SubElement w p t a)) =
     (let f = (objs w)(nxt w := \<lparr>tag = t, attrib = a, text = None, tail = None, children = []\<rparr>)
      in f(p := (f p)\<lparr>children := children (f p) @ [nxt w]\<rparr>))"
  "nxt (fst (SubElement w p t a)) = Suc (nxt w)"
  "files (fst (SubElement w p t a)) = files w"
  "stdout (fst (SubElement w p t a)) = stdout w"
  by (simp_all add: SubElement_def Element_def)

text \<open>Two worlds with the same four components are the same world.\<close>

lemma world_eqI:
  "objs w = objs w' \<Longrightarrow> nxt w = nxt w' \<Longrightarrow> files w = files w' \<Longrightarrow> stdout w = stdout w'
   \<Longrightarrow> w = (w' :: world)"
  by simp

lemma truthy_the:
  "(if truthy t then s @ the t else s) = s @ (case t of None \<Rightarrow> [] | Some x \<Rightarrow> x)"
  by (cases t) auto

section \<open>The Chapter Extractor on a document without the chapter\<close>

lemma chapter_scan_no_start:
  "\<forall>r\<in>set xs. \<not> is_start_marker w num r \<Longrightarrow>
   chapter_scan w num xs acc False found = (acc, found)"
  by (induction xs) (auto simp: is_start_marker_def)

section \<open>The paragraph filter\<close>

lemma has_verses_numeric:
  "list_all (\<lambda>c. if tag (objs w c) = ''verse''
                  then (case verse_num (objs w c) of Inl err \<Rightarrow> False | Inr n \<Rightarrow> True)
                  else True) cs \<Longrightarrow>
   has_verses_in_range w cs sv ev =
     Inr (list_ex (\<lambda>c. tag (objs w c) = ''verse'' \<and> in_range w sv ev c) cs)"
  by (induction cs) (auto simp: in_range_def split: sum.splits)

lemma keeps_elem_append [simp]: "keeps (elem_append w p c) sv ev = keeps w sv ev"
  by (rule ext) (simp add: keeps_def in_range_def verse_num_def get_def)

lemma tail_text_elem_append [simp]: "tail_text (elem_append w p c) = tail_text w"
  by (rule ext) (simp add: tail_text_def)

lemma copy_children_result:
  "copy_children w pc cs sv ev t = Inr (w', t') \<Longrightarrow>
     nxt w' = nxt w \<and> files w' = files w \<and> stdout w' = stdout w \<and>
     (\<forall>x. x \<noteq> pc \<longrightarrow> objs w' x = objs w x) \<and>
     objs w' pc = (objs w pc)\<lparr>children := children (objs w pc) @ filter (keeps w sv ev) cs\<rparr> \<and>
     t' = t @ concat (map (tail_text w) (filter (keeps w sv ev) cs))"
proof (induction cs arbitrary: w t)
  case Nil
  then show ?case by simp
next
  case (Cons c cs)
  show ?case
  proof (cases "keeps w sv ev c")
    case True
    with Cons.prems have
      "copy_children (elem_append w pc c) pc cs sv ev (t @ tail_text w c) = Inr (w', t')"
      by (auto simp: keeps_def in_range_def truthy_the tail_text_def split: sum.splits if_splits)
    from Cons.IH [OF this] True show ?thesis
      by simp
  next
    case False
    with Cons.prems have "copy_children w pc cs sv ev t = Inr (w', t')"
      by (auto simp: keeps_def in_range_def split: sum.splits if_splits)
    from Cons.IH [OF this] False show ?thesis by simp
  qed
qed

lemma copy_children_succeeds:
  "list_all (\<lambda>c. if tag (objs w c) = ''verse''
                  then (case verse_num (objs w c) of Inl err \<Rightarrow> False | Inr n \<Rightarrow> True)
                  else True) cs \<Longrightarrow>
   \<exists>w' t'. copy_children w pc cs sv ev t = Inr (w', t')"
proof (induction cs arbitrary: w t)
  case Nil
  then show ?case by simp
next
  case (Cons c cs)
  have "list_all (\<lambda>x. if tag (objs (elem_append w pc c) x) = ''verse''
                  then (case verse_num (objs (elem_append w pc c) x) of
                          Inl err \<Rightarrow> False | Inr n \<Rightarrow> True)
                  else True) cs"
    using Cons.prems by (auto simp: list_all_iff verse_num_def get_def)
  with Cons show ?case
    by (auto split: sum.splits)
qed

text \<open>
  What the paragraph filter returns for an allocated paragraph whose verse numbers are
  integers: nothing and an unchanged world, or one new element, the filtered copy.
\<close>

lemma extract_verses_from_para_eq:
  assumes alloc: "p < nxt w" "\<forall>c\<in>set (children (objs w p)). c < nxt w"
    and num: "numeric_verses w p"
  shows "extract_verses_from_para w p sv ev =
           Inr (if some_verse_in_range w p sv ev
                then (w\<lparr>objs := (objs w)(nxt w := filtered_copy w p sv ev), nxt := Suc (nxt w)\<rparr>,
                      Some (nxt w))
                else (w, None))"
proof -
  let ?cs = "children (objs w p)"
  have has: "has_verses_in_range w ?cs sv ev = Inr (some_verse_in_range w p sv ev)"
    using num by (simp add: numeric_verses_def some_verse_in_range_def has_verses_numeric)
  show ?thesis
  proof (cases "some_verse_in_range w p sv ev")
    case False
    with has show ?thesis by (simp add: extract_verses_from_para_def)
  next
    case True
    define w1 where "w1 = fst (Element w (tag (objs w p)) (attrib (objs w p)))"
    have el: "Element w (tag (objs w p)) (attrib (objs w p)) = (w1, nxt w)"
      by (simp add: w1_def Element_def)
    have same: "objs w1 x = objs w x" if "x < nxt w" for x
      using that by (simp add: w1_def)
    have p1: "objs w1 p = objs w p" using alloc same by simp
    have keeps1: "filter (keeps w1 sv ev) ?cs = filter (keeps w sv ev) ?cs"
      using alloc same by (intro filter_cong refl) (simp add: keeps_def in_range_def)
    have tails1: "map (tail_text w1) (filter (keeps w sv ev) ?cs) =
                  map (tail_text w) (filter (keeps w sv ev) ?cs)"
      using alloc same by (intro map_cong refl) (simp add: tail_text_def)
    have "list_all (\<lambda>c. if tag (objs w1 c) = ''verse''
                  then (case verse_num (objs w1 c) of Inl err \<Rightarrow> False | Inr n \<Rightarrow> True)
                  else True) ?cs"
      using num alloc same by (simp add: numeric_verses_def list_all_iff)
    from copy_children_succeeds [OF this] obtain w2 collected where
      cc: "copy_children w1 (nxt w) ?cs sv ev [] = Inr (w2, collected)" by blast
    note res = copy_children_result [OF cc]
    have kept_ne: "filter (keeps w sv ev) ?cs \<noteq> []"
      using True by (auto simp: some_verse_in_range_def list_ex_iff keeps_def filter_empty_conv)
    have new1: "objs w1 (nxt w) = \<lparr>tag = tag (objs w p), attrib = attrib (objs w p),
                  text = None, tail = None, children = []\<rparr>"
      by (simp add: w1_def)
    define T where "T = (case text (objs w p) of None \<Rightarrow> [] | Some t \<Rightarrow> t) @
                        concat (map (tail_text w) (filter (keeps w sv ev) ?cs))"
    have w2p: "objs w2 p = objs w p" using res alloc p1 by simp
    have cur: "(if truthy (text (objs w2 p)) then the (text (objs w2 p)) @ collected else collected) = T"
      using res by (cases "text (objs w p)") (simp_all add: T_def w2p keeps1 tails1)
    define w3 where "w3 = (if \<not> isspace_all T then set_text w2 (nxt w) T else w2)"
    have w3_new: "objs w3 (nxt w) = filtered_copy w p sv ev"
      using res by (simp add: w3_def filtered_copy_def Let_def T_def new1 keeps1)
    have w3_old: "objs w3 x = objs w x" if "x \<noteq> nxt w" for x
      using res that by (simp add: w3_def w1_def)
    have w3_rest: "nxt w3 = Suc (nxt w)" "files w3 = files w" "stdout w3 = stdout w"
      using res by (simp_all add: w3_def w1_def)
    have w3_eq: "w3 = w\<lparr>objs := (objs w)(nxt w := filtered_copy w p sv ev), nxt := Suc (nxt w)\<rparr>"
      by (rule world_eqI) (auto simp: w3_new w3_old w3_rest fun_eq_iff)
    have nonempty: "children (objs w2 (nxt w)) \<noteq> []"
      using res kept_ne by (simp add: new1 keeps1)
    have "extract_verses_from_para w p sv ev = Inr (w3, Some (nxt w))"
      using has True el cc cur nonempty
      by (simp add: extract_verses_from_para_def p1 Let_def w3_def)
    with True w3_eq show ?thesis by simp
  qed
qed

section \<open>The chunk loop\<close>

text \<open>
  The paragraph filter changes no existing object: it allocates at most one element, at
  the next free address.
\<close>

lemma extract_verses_from_para_frame:
  assumes "extract_verses_from_para w p sv ev = Inr (w', r)"
  shows "files w' = files w \<and> stdout w' = stdout w \<and> nxt w \<le> nxt w' \<and> nxt w' \<le> Suc (nxt w) \<and>
         (\<forall>x. x \<noteq> nxt w \<longrightarrow> objs w' x = objs w x) \<and>
         (r = None \<or> (r = Some (nxt w) \<and> nxt w' = Suc (nxt w)))"
proof (cases "has_verses_in_range w (children (objs w p)) sv ev")
  case (Inl e)
  with assms show ?thesis by (simp add: extract_verses_from_para_def)
next
  case (Inr b)
  show ?thesis
  proof (cases b)
    case False
    with Inr assms show ?thesis by (auto simp: extract_verses_from_para_def)
  next
    case True
    define w1 where "w1 = fst (Element w (tag (objs w p)) (attrib (objs w p)))"
    have el: "Element w (tag (objs w p)) (attrib (objs w p)) = (w1, nxt w)"
      by (simp add: w1_def Element_def)
    from assms Inr True el obtain w2 collected where
      cc: "copy_children w1 (nxt w) (children (objs w1 p)) sv ev [] = Inr (w2, collected)"
      by (auto simp: extract_verses_from_para_def Let_def split: sum.splits if_splits)
    note res = copy_children_result [OF cc]
    have w1: "nxt w1 = Suc (nxt w)" "files w1 = files w" "stdout w1 = stdout w"
      "\<forall>x. x \<noteq> nxt w \<longrightarrow> objs w1 x = objs w x"
      by (simp_all add: w1_def)
    from assms Inr True el cc obtain T where
      w': "w' = set_text w2 (nxt w) T \<or> w' = w2" and r: "r = Some (nxt w) \<or> r = None"
      by (auto simp: extract_verses_from_para_def Let_def split: if_splits)
    from w' res w1 have "files w' = files w" "stdout w' = stdout w" "nxt w' = Suc (nxt w)"
      "\<forall>x. x \<noteq> nxt w \<longrightarrow> objs w' x = objs w x"
      by auto
    with r show ?thesis by auto
  qed
qed

lemma allocated_iff:
  "allocated w rs \<longleftrightarrow> (\<forall>r\<in>set rs. r < nxt w \<and> (\<forall>c\<in>set (children (objs w r)). c < nxt w))"
  by (simp add: allocated_def list_all_iff)

section \<open>The indentation pass\<close>

lemma same_shape_refl [simp]: "same_shape w w"
  by (simp add: same_shape_def)

lemma same_shape_trans: "same_shape w w' \<Longrightarrow> same_shape w' w'' \<Longrightarrow> same_shape w w''"
  by (simp add: same_shape_def)

lemma shape_set_text [simp]:
  "tag (objs (set_text w r t) x) = tag (objs w x)"
  "attrib (objs (set_text w r t) x) = attrib (objs w x)"
  "children (objs (set_text w r t) x) = children (objs w x)"
  "tail (objs (set_text w r t) x) = tail (objs w x)"
  by simp_all

lemma shape_set_tail [simp]:
  "tag (objs (set_tail w r t) x) = tag (objs w x)"
  "attrib (objs (set_tail w r t) x) = attrib (objs w x)"
  "children (objs (set_tail w r t) x) = children (objs w x)"
  "text (objs (set_tail w r t) x) = text (objs w x)"
  by simp_all

lemma same_shape_set [simp]:
  "same_shape w (set_text w' r t) = same_shape w w'"
  "same_shape w (set_tail w' r t) = same_shape w w'"
  "same_shape (set_text w r t) w' = same_shape w w'"
  "same_shape (set_tail w r t) w' = same_shape w w'"
  by (simp_all add: same_shape_def del: set_text_simps(1) set_tail_simps(1))

text \<open>
  \<^verbatim>\<open>_indent_xml\<close> assigns to text and tail only: it keeps the shape of the store.
\<close>

lemma indent_children_shape_aux:
  assumes "\<And>w e w'. indent_xml d w e l = Inr w' \<Longrightarrow> same_shape w w'"
  shows "indent_children d w es l = Inr w' \<Longrightarrow> same_shape w w'"
proof (induction es arbitrary: w)
  case Nil
  then show ?case by simp
next
  case (Cons c es)
  from Cons.prems obtain w1 where
    a: "indent_xml d w c l = Inr w1" and b: "indent_children d w1 es l = Inr w'"
    by (auto split: sum.splits)
  from assms [OF a] Cons.IH [OF b] show ?case by (rule same_shape_trans)
qed

lemma indent_xml_shape: "indent_xml d w e l = Inr w' \<Longrightarrow> same_shape w w'"
proof (induction d arbitrary: w e l w')
  case 0
  then show ?case by simp
next
  case (Suc d)
  have ch: "indent_children d v es k = Inr v' \<Longrightarrow> same_shape v v'" for v es k v'
    by (rule indent_children_shape_aux [OF Suc.IH])
  from Suc.prems show ?case
    by (auto simp: Let_def simp del: set_text_simps(1) set_tail_simps(1)
          split: if_splits sum.splits dest!: ch)
qed

lemma indent_children_shape: "indent_children d w es l = Inr w' \<Longrightarrow> same_shape w w'"
  by (rule indent_children_shape_aux [OF indent_xml_shape])

section \<open>Depth and the recursive passes\<close>

lemma closed_iff: "closed w \<longleftrightarrow> (\<forall>x<nxt w. \<forall>c\<in>set (children (objs w x)). c < nxt w)"
  by (auto simp: closed_def list_all_iff)

lemma depth_within_same_shape:
  "same_shape w w' \<Longrightarrow> depth_within d w' = depth_within d w"
proof (induction d)
  case 0
  show ?case by (rule ext) simp
next
  case (Suc d)
  then show ?case by (intro ext) (simp add: same_shape_def)
qed

lemma depth_within_mono: "depth_within d w r \<Longrightarrow> depth_within (Suc d) w r"
proof (induction d arbitrary: r)
  case 0
  then show ?case by simp
next
  case (Suc d)
  from Suc.prems have "list_all (depth_within d w) (children (objs w r))" by simp
  then have "list_all (depth_within (Suc d) w) (children (objs w r))"
    by (auto simp: list_all_iff simp del: depth_within.simps intro: Suc.IH)
  then show ?case by (simp only: depth_within.simps(2))
qed

lemma indent_children_succeeds_aux:
  assumes "\<And>w e. depth_within d w e \<Longrightarrow> \<exists>w'. indent_xml d w e l = Inr w'"
  shows "list_all (depth_within d w) es \<Longrightarrow> \<exists>w'. indent_children d w es l = Inr w'"
proof (induction es arbitrary: w)
  case Nil
  then show ?case by simp
next
  case (Cons c es)
  from Cons.prems assms obtain w1 where a: "indent_xml d w c l = Inr w1" by auto
  from indent_xml_shape [OF a] Cons.prems have "list_all (depth_within d w1) es"
    by (simp add: depth_within_same_shape)
  from Cons.IH [OF this] a show ?case by simp
qed

lemma indent_xml_succeeds: "depth_within d w e \<Longrightarrow> \<exists>w'. indent_xml d w e l = Inr w'"
proof (induction d arbitrary: w e l)
  case 0
  then show ?case by simp
next
  case (Suc d)
  have noerr: "indent_children d v (children (objs w e)) (Suc l) \<noteq> Inl x"
    if "same_shape w v" for v x
  proof -
    from Suc.prems that have "list_all (depth_within d v) (children (objs w e))"
      by (simp add: depth_within_same_shape)
    from indent_children_succeeds_aux [OF Suc.IH this, of "Suc l"] show ?thesis by auto
  qed
  show ?case
    by (auto simp: Let_def noerr simp del: set_text_simps(1) set_tail_simps(1)
          split: sum.splits)
qed

section \<open>Serialising a tree\<close>

lemma serialize_node:
  "serialize d w e = Inr x \<Longrightarrow> xtag x = tag (objs w e) \<and> xattrib x = attrib (objs w e)"
  by (cases d) (auto split: sum.splits)

lemma serialize_children_outline:
  "serialize_children d w cs = Inr xs \<Longrightarrow>
   map (\<lambda>x. (xtag x, xattrib x)) xs = map (\<lambda>c. (tag (objs w c), attrib (objs w c))) cs"
  by (induction cs arbitrary: xs) (auto split: sum.splits dest: serialize_node)

lemma serialize_outline:
  "serialize d w e = Inr x \<Longrightarrow>
   top_level x = map (\<lambda>c. (tag (objs w c), attrib (objs w c))) (children (objs w e))"
  by (cases d) (auto simp: top_level_def split: sum.splits dest: serialize_children_outline)

lemma serialize_children_succeeds_aux:
  assumes "\<And>e. depth_within d w e \<Longrightarrow> \<exists>x. serialize d w e = Inr x"
  shows "list_all (depth_within d w) es \<Longrightarrow> \<exists>xs. serialize_children d w es = Inr xs"
proof (induction es)
  case Nil
  then show ?case by simp
next
  case (Cons c es)
  from Cons.prems assms obtain x where "serialize d w c = Inr x" by auto
  moreover from Cons obtain xs where "serialize_children d w es = Inr xs" by auto
  ultimately show ?case by simp
qed

lemma serialize_succeeds: "depth_within d w e \<Longrightarrow> \<exists>x. serialize d w e = Inr x"
proof (induction d arbitrary: e)
  case 0
  then show ?case by simp
next
  case (Suc d)
  from serialize_children_succeeds_aux [OF Suc.IH, of "children (objs w e)"] Suc.prems
  obtain xs where "serialize_children d w (children (objs w e)) = Inr xs" by auto
  then show ?case by simp
qed

section \<open>The tree that the writer assembles\<close>

lemma fold_append:
  "nxt (fold (\<lambda>e w'. elem_append w' p e) cs w) = nxt w"
  "files (fold (\<lambda>e w'. elem_append w' p e) cs w) = files w"
  "stdout (fold (\<lambda>e w'. elem_append w' p e) cs w) = stdout w"
  "objs (fold (\<lambda>e w'. elem_append w' p e) cs w) x =
     (if x = p then (objs w p)\<lparr>children := children (objs w p) @ cs\<rparr> else objs w x)"
  by (induction cs arbitrary: w) simp_all

lemma has_chapter_end_cong:
  "\<forall>c\<in>set content. objs w' c = objs w c \<Longrightarrow> has_chapter_end w' content = has_chapter_end w content"
  by (simp add: has_chapter_end_def list_ex_iff)

lemma create_chunk_file_raw:
  "create_chunk_file lim out w chapter_num chunk_num content is_title =
     (case indent_xml lim (assembled w chapter_num content is_title)
             (snd (Element w ''usx'' [(''version'', ''3.0'')])) 0 of
        Inl err \<Rightarrow> Inl err
      | Inr w5 \<Rightarrow>
          (case write_tree lim w5 (snd (Element w ''usx'' [(''version'', ''3.0'')]))
                  (chunk_path out chapter_num chunk_num is_title) of
             Inl err \<Rightarrow> Inl err
           | Inr w6 \<Rightarrow>
               Inr (print w6 (''Created: '' @
                      path_str (chunk_path out chapter_num chunk_num is_title)))))"
  unfolding create_chunk_file_def assembled_def chunk_path_def Let_def split_def
  by (rule refl)

lemma create_chunk_file_assembled:
  "create_chunk_file lim out w chapter_num chunk_num content is_title =
     (case indent_xml lim (assembled w chapter_num content is_title) (nxt w) 0 of
        Inl err \<Rightarrow> Inl err
      | Inr w5 \<Rightarrow>
          (case write_tree lim w5 (nxt w) (chunk_path out chapter_num chunk_num is_title) of
             Inl err \<Rightarrow> Inl err
           | Inr w6 \<Rightarrow>
               Inr (print w6 (''Created: '' @
                      path_str (chunk_path out chapter_num chunk_num is_title)))))"
  unfolding create_chunk_file_raw Element_simps(1) by (rule refl)

lemma assembled_props:
  assumes "\<forall>c\<in>set content. c < nxt w"
  shows "files (assembled w n content is_title) = files w"
    and "stdout (assembled w n content is_title) = stdout w"
    and "nxt w < nxt (assembled w n content is_title)"
    and "\<forall>x<nxt w. objs (assembled w n content is_title) x = objs w x"
    and "children (objs (assembled w n content is_title) (nxt w)) =
           (if is_title then [] else [Suc (nxt w)]) @ content @
           (if \<not> is_title \<and> \<not> has_chapter_end w content then [Suc (Suc (nxt w))] else [])"
    and "\<not> is_title \<Longrightarrow>
           tag (objs (assembled w n content is_title) (Suc (nxt w))) = ''book'' \<and>
           attrib (objs (assembled w n content is_title) (Suc (nxt w))) =
             [(''code'', ''REV''), (''style'', ''id'')] \<and>
           children (objs (assembled w n content is_title) (Suc (nxt w))) = []"
    and "\<not> is_title \<Longrightarrow> \<not> has_chapter_end w content \<Longrightarrow>
           tag (objs (assembled w n content is_title) (Suc (Suc (nxt w)))) = ''chapter'' \<and>
           attrib (objs (assembled w n content is_title) (Suc (Suc (nxt w)))) =
             [(''eid'', ''REV '' @ str_int n)] \<and>
           children (objs (assembled w n content is_title) (Suc (Suc (nxt w)))) = []"
    and "nxt (assembled w n content is_title) \<le> Suc (Suc (Suc (nxt w)))"
    and "\<forall>x. nxt w < x \<longrightarrow> children (objs (assembled w n content is_title) x) =
           (if x < nxt (assembled w n content is_title) then [] else children (objs w x))"
proof -
  define w1 where "w1 = fst (Element w ''usx'' [(''version'', ''3.0'')])"
  define w2 where "w2 = (if \<not> is_title then
       set_text (fst (SubElement w1 (nxt w) ''book'' [(''code'', ''REV''), (''style'', ''id'')]))
         (nxt w1) BOOK_TITLE else w1)"
  define w3 where "w3 = fold (\<lambda>element w'. elem_append w' (nxt w) element) content w2"
  have A: "assembled w n content is_title =
           (if \<not> is_title \<and> \<not> has_chapter_end w3 content
            then fst (SubElement w3 (nxt w) ''chapter'' [(''eid'', ''REV '' @ str_int n)])
            else w3)"
    by (simp add: assembled_def Let_def Element_def SubElement_def w1_def w2_def w3_def
          split_def)
  have n1: "nxt w1 = Suc (nxt w)" by (simp add: w1_def)
  have o3: "\<forall>c\<in>set content. objs w3 c = objs w c"
    using assms by (auto simp: w3_def fold_append w2_def w1_def Let_def n1)
  have hce: "has_chapter_end w3 content = has_chapter_end w content"
    by (rule has_chapter_end_cong [OF o3])
  show "files (assembled w n content is_title) = files w"
    by (simp add: A w3_def fold_append w2_def w1_def)
  show "stdout (assembled w n content is_title) = stdout w"
    by (simp add: A w3_def fold_append w2_def w1_def)
  show "nxt w < nxt (assembled w n content is_title)"
    by (simp add: A w3_def fold_append w2_def w1_def)
  show "nxt (assembled w n content is_title) \<le> Suc (Suc (Suc (nxt w)))"
    by (simp add: A w3_def fold_append w2_def w1_def)
  show "\<forall>x<nxt w. objs (assembled w n content is_title) x = objs w x"
    by (simp add: A w3_def fold_append w2_def w1_def Let_def)
  show "children (objs (assembled w n content is_title) (nxt w)) =
           (if is_title then [] else [Suc (nxt w)]) @ content @
           (if \<not> is_title \<and> \<not> has_chapter_end w content then [Suc (Suc (nxt w))] else [])"
    by (simp add: A hce) (simp add: w3_def fold_append w2_def w1_def Let_def)
  show "tag (objs (assembled w n content is_title) (Suc (nxt w))) = ''book'' \<and>
           attrib (objs (assembled w n content is_title) (Suc (nxt w))) =
             [(''code'', ''REV''), (''style'', ''id'')] \<and>
           children (objs (assembled w n content is_title) (Suc (nxt w))) = []"
    if "\<not> is_title"
    unfolding A using that by (simp add: w3_def fold_append w2_def w1_def Let_def)
  show "tag (objs (assembled w n content is_title) (Suc (Suc (nxt w)))) = ''chapter'' \<and>
           attrib (objs (assembled w n content is_title) (Suc (Suc (nxt w)))) =
             [(''eid'', ''REV '' @ str_int n)] \<and>
           children (objs (assembled w n content is_title) (Suc (Suc (nxt w)))) = []"
    if "\<not> is_title" "\<not> has_chapter_end w content"
    unfolding A hce using that by (simp add: w3_def fold_append w2_def w1_def Let_def)
  show "\<forall>x. nxt w < x \<longrightarrow> children (objs (assembled w n content is_title) x) =
           (if x < nxt (assembled w n content is_title) then [] else children (objs w x))"
    by (simp add: A hce) (auto simp: w3_def fold_append w2_def w1_def Let_def)
qed

lemma assembled_nxt:
  assumes "\<forall>c\<in>set content. c < nxt w"
  shows "nxt (assembled w n content is_title) =
           (if is_title then Suc (nxt w)
            else if has_chapter_end w content then Suc (Suc (nxt w))
            else Suc (Suc (Suc (nxt w))))"
proof -
  define w1 where "w1 = fst (Element w ''usx'' [(''version'', ''3.0'')])"
  define w2 where "w2 = (if \<not> is_title then
       set_text (fst (SubElement w1 (nxt w) ''book'' [(''code'', ''REV''), (''style'', ''id'')]))
         (nxt w1) BOOK_TITLE else w1)"
  define w3 where "w3 = fold (\<lambda>element w'. elem_append w' (nxt w) element) content w2"
  have A: "assembled w n content is_title =
           (if \<not> is_title \<and> \<not> has_chapter_end w3 content
            then fst (SubElement w3 (nxt w) ''chapter'' [(''eid'', ''REV '' @ str_int n)])
            else w3)"
    by (simp add: assembled_def Let_def Element_def SubElement_def w1_def w2_def w3_def
          split_def)
  have n1: "nxt w1 = Suc (nxt w)" by (simp add: w1_def)
  have o3: "\<forall>c\<in>set content. objs w3 c = objs w c"
    using assms by (auto simp: w3_def fold_append w2_def w1_def Let_def n1)
  have hce: "has_chapter_end w3 content = has_chapter_end w content"
    by (rule has_chapter_end_cong [OF o3])
  show ?thesis
    unfolding A hce by (simp add: w3_def fold_append w2_def w1_def)
qed

lemma depth_within_agree:
  assumes "closed w" and "\<forall>x<nxt w. children (objs w' x) = children (objs w x)"
  shows "r < nxt w \<Longrightarrow> depth_within d w' r = depth_within d w r"
proof (induction d arbitrary: r)
  case 0
  show ?case by simp
next
  case (Suc d)
  have "\<forall>c\<in>set (children (objs w r)). c < nxt w"
    using assms(1) Suc.prems by (simp add: closed_iff)
  with Suc show ?case
    using assms(2) by (simp add: list_all_iff)
qed

lemma assembled_closed:
  assumes alloc: "\<forall>c\<in>set content. c < nxt w" and cl: "closed w"
  shows "closed (assembled w n content is_title)"
proof -
  let ?A = "assembled w n content is_title"
  note p = assembled_props [OF alloc, where n = n and is_title = is_title] and nx = assembled_nxt [OF alloc, where n = n and is_title = is_title]
  show ?thesis
    unfolding closed_iff
  proof (intro allI impI ballI)
    fix x c
    assume x: "x < nxt ?A" and c: "c \<in> set (children (objs ?A x))"
    consider "x < nxt w" | "x = nxt w" | "nxt w < x" by linarith
    then show "c < nxt ?A"
    proof cases
      case 1
      with p(4) c have "c \<in> set (children (objs w x))" by simp
      with cl 1 have "c < nxt w" by (auto simp: closed_iff)
      with p(3) show ?thesis by simp
    next
      case 2
      with c p(5) alloc nx show ?thesis by (auto split: if_splits)
    next
      case 3
      with p(9) x c show ?thesis by simp
    qed
  qed
qed

lemma assembled_depth:
  assumes alloc: "\<forall>c\<in>set content. c < nxt w" and cl: "closed w"
    and dp: "list_all (depth_within (Suc d) w) content"
  shows "depth_within (Suc (Suc d)) (assembled w n content is_title) (nxt w)"
proof -
  let ?A = "assembled w n content is_title"
  note p = assembled_props [OF alloc, where n = n and is_title = is_title] and nx = assembled_nxt [OF alloc, where n = n and is_title = is_title]
  have old: "depth_within (Suc d) ?A c" if "c \<in> set content" for c
  proof -
    from that alloc have "c < nxt w" by simp
    from depth_within_agree [OF cl _ this, of ?A "Suc d"] p(4) dp that show ?thesis
      by (simp add: list_all_iff del: depth_within.simps)
  qed
  have new: "depth_within (Suc d) ?A x" if "nxt w < x" "x < nxt ?A" for x
    using p(9) that by simp
  have "list_all (depth_within (Suc d) ?A) (children (objs ?A (nxt w)))"
    unfolding p(5) using old new nx
    by (auto simp: list_all_iff simp del: depth_within.simps)
  then show ?thesis by (simp only: depth_within.simps(2))
qed

text \<open>
  What a successful \<^verbatim>\<open>create_chunk_file\<close> leaves behind, for content that is in the store.
\<close>

lemma create_chunk_file_result:
  assumes ok: "create_chunk_file lim out w ch n content is_title = Inr w'"
    and alloc: "\<forall>c\<in>set content. c < nxt w"
  shows "\<exists>x. files w' = (files w)(chunk_path out ch n is_title := Some x) \<and>
              top_level x =
                (if is_title then [] else [(''book'', [(''code'', ''REV''), (''style'', ''id'')])]) @
                map (\<lambda>c. (tag (objs w c), attrib (objs w c))) content @
                (if \<not> is_title \<and> \<not> has_chapter_end w content
                 then [(''chapter'', [(''eid'', ''REV '' @ str_int ch)])] else [])"
    and "stdout w' = stdout w @ [''Created: '' @ path_str (chunk_path out ch n is_title)]"
    and "same_shape (assembled w ch content is_title)
           (w'\<lparr>files := files w, stdout := stdout w\<rparr>)"
proof -
  let ?A = "assembled w ch content is_title"
  note p = assembled_props [OF alloc, where n = ch and is_title = is_title]
  from ok obtain w5 w6 where
    ind: "indent_xml lim ?A (nxt w) 0 = Inr w5"
    and wr: "write_tree lim w5 (nxt w) (chunk_path out ch n is_title) = Inr w6"
    and w': "w' = print w6 (''Created: '' @ path_str (chunk_path out ch n is_title))"
    by (auto simp: create_chunk_file_assembled split: sum.splits)
  from wr obtain x where
    ser: "serialize lim w5 (nxt w) = Inr x"
    and w6: "w6 = w5\<lparr>files := (files w5)(chunk_path out ch n is_title := Some x)\<rparr>"
    by (auto simp: write_tree_def split: sum.splits)
  note sh = indent_xml_shape [OF ind]
  have sh': "nxt w5 = nxt ?A" "files w5 = files ?A" "stdout w5 = stdout ?A"
    "\<And>y. tag (objs w5 y) = tag (objs ?A y)" "\<And>y. attrib (objs w5 y) = attrib (objs ?A y)"
    "\<And>y. children (objs w5 y) = children (objs ?A y)"
    using sh by (simp_all add: same_shape_def)
  have olds: "map (\<lambda>c. (tag (objs ?A c), attrib (objs ?A c))) content =
              map (\<lambda>c. (tag (objs w c), attrib (objs w c))) content"
    using alloc p(4) by simp
  have "top_level x = map (\<lambda>c. (tag (objs ?A c), attrib (objs ?A c))) (children (objs ?A (nxt w)))"
    using serialize_outline [OF ser] by (simp add: sh')
  also have "\<dots> = (if is_title then [] else [(''book'', [(''code'', ''REV''), (''style'', ''id'')])]) @
                map (\<lambda>c. (tag (objs w c), attrib (objs w c))) content @
                (if \<not> is_title \<and> \<not> has_chapter_end w content
                 then [(''chapter'', [(''eid'', ''REV '' @ str_int ch)])] else [])"
    unfolding p(5) using p(6) p(7) by (simp add: olds)
  finally have tl: "top_level x = (if is_title then [] else [(''book'', [(''code'', ''REV''), (''style'', ''id'')])]) @
                map (\<lambda>c. (tag (objs w c), attrib (objs w c))) content @
                (if \<not> is_title \<and> \<not> has_chapter_end w content
                 then [(''chapter'', [(''eid'', ''REV '' @ str_int ch)])] else [])" .
  have "files w' = (files w)(chunk_path out ch n is_title := Some x)"
    by (simp add: w' w6 sh' p(1))
  with tl show "\<exists>x. files w' = (files w)(chunk_path out ch n is_title := Some x) \<and>
              top_level x =
                (if is_title then [] else [(''book'', [(''code'', ''REV''), (''style'', ''id'')])]) @
                map (\<lambda>c. (tag (objs w c), attrib (objs w c))) content @
                (if \<not> is_title \<and> \<not> has_chapter_end w content
                 then [(''chapter'', [(''eid'', ''REV '' @ str_int ch)])] else [])"
    by blast
  show "stdout w' = stdout w @ [''Created: '' @ path_str (chunk_path out ch n is_title)]"
    by (simp add: w' w6 sh' p(2))
  show "same_shape ?A (w'\<lparr>files := files w, stdout := stdout w\<rparr>)"
    using sh by (simp add: same_shape_def w' w6 p(1) p(2))
qed

lemma create_chunk_file_succeeds:
  assumes alloc: "\<forall>c\<in>set content. c < nxt w" and cl: "closed w"
    and dp: "list_all (depth_within (Suc d) w) content"
  shows "\<exists>w'. create_chunk_file (Suc (Suc d)) out w ch n content is_title = Inr w'"
proof -
  let ?A = "assembled w ch content is_title"
  have dA: "depth_within (Suc (Suc d)) ?A (nxt w)"
    by (rule assembled_depth [OF alloc cl dp])
  from indent_xml_succeeds [OF this, of 0] obtain w5 where
    ind: "indent_xml (Suc (Suc d)) ?A (nxt w) 0 = Inr w5" by blast
  from indent_xml_shape [OF ind] dA have "depth_within (Suc (Suc d)) w5 (nxt w)"
    by (simp add: depth_within_same_shape del: depth_within.simps)
  from serialize_succeeds [OF this] obtain x where
    "serialize (Suc (Suc d)) w5 (nxt w) = Inr x" by blast
  with ind show ?thesis
    by (simp add: create_chunk_file_assembled write_tree_def del: serialize.simps indent_xml.simps)
qed

section \<open>The result of the chunk loop\<close>

lemma agree_below_refl [simp]: "agree_below n w w"
  by (simp add: agree_below_def)

lemma agree_below_trans:
  "agree_below n w w' \<Longrightarrow> agree_below n w' w'' \<Longrightarrow> agree_below n w w''"
  by (simp add: agree_below_def)

lemma agree_below_mono: "agree_below n w w' \<Longrightarrow> m \<le> n \<Longrightarrow> agree_below m w w'"
  by (simp add: agree_below_def)

lemma same_shape_agree: "same_shape w w' \<Longrightarrow> agree_below n w w'"
  by (simp add: same_shape_def agree_below_def)

lemma verse_num_agree: "attrib e' = attrib e \<Longrightarrow> verse_num e' = verse_num e"
  by (simp add: verse_num_def get_def)

lemma para_tests_agree:
  assumes "agree_below n w w'" "p < n" "\<forall>c\<in>set (children (objs w p)). c < n"
  shows "numeric_verses w' p = numeric_verses w p"
    and "some_verse_in_range w' p sv ev = some_verse_in_range w p sv ev"
proof -
  have k: "children (objs w' p) = children (objs w p)"
    using assms(1,2) by (simp add: agree_below_def)
  have c1: "tag (objs w' c) = tag (objs w c)" if "c \<in> set (children (objs w p))" for c
  proof -
    from that assms(3) have "c < n" by blast
    with assms(1) show ?thesis by (simp add: agree_below_def)
  qed
  have c2: "verse_num (objs w' c) = verse_num (objs w c)" if "c \<in> set (children (objs w p))" for c
  proof -
    from that assms(3) have "c < n" by blast
    with assms(1) have "attrib (objs w' c) = attrib (objs w c)" by (simp add: agree_below_def)
    then show ?thesis by (rule verse_num_agree)
  qed
  show "numeric_verses w' p = numeric_verses w p"
    unfolding numeric_verses_def k
    by (rule list_all_cong) (simp_all add: c1 c2)
  show "some_verse_in_range w' p sv ev = some_verse_in_range w p sv ev"
    unfolding some_verse_in_range_def k in_range_def
    by (rule list_ex_cong) (simp_all add: c1 c2)
qed

lemma chunk_outline_agree:
  assumes "agree_below n w w'"
  shows "\<forall>p\<in>set content. p < n \<and> (\<forall>c\<in>set (children (objs w p)). c < n) \<Longrightarrow>
         chunk_outline w' content sv ev = chunk_outline w content sv ev"
proof (induction content)
  case Nil
  show ?case by simp
next
  case (Cons e rest)
  from Cons.prems have e: "e < n" "\<forall>c\<in>set (children (objs w e)). c < n" by simp_all
  from assms e have "tag (objs w' e) = tag (objs w e)" "attrib (objs w' e) = attrib (objs w e)"
    by (simp_all add: agree_below_def)
  with Cons para_tests_agree(2) [OF assms e] show ?case
    by (simp add: get_def)
qed

lemma some_verse_kept:
  "some_verse_in_range w p sv ev \<Longrightarrow> filter (keeps w sv ev) (children (objs w p)) \<noteq> []"
  by (auto simp: some_verse_in_range_def list_ex_iff keeps_def filter_empty_conv)

lemma chunk_outline_Cons:
  "chunk_outline w (e # rest) sv ev = chunk_outline w [e] sv ev @ chunk_outline w rest sv ev"
  by simp

lemma chunk_post_fresh_weaken:
  assumes "\<forall>x. nxt w \<le> x \<and> x < nxt w' \<longrightarrow>
             (\<exists>p\<in>set rest. set (children (objs w' x)) \<subseteq> set (children (objs w p)))"
  shows "\<forall>x. nxt w \<le> x \<and> x < nxt w' \<longrightarrow>
             (\<exists>p\<in>set (e # rest). set (children (objs w' x)) \<subseteq> set (children (objs w p)))"
proof (intro allI impI)
  fix x assume "nxt w \<le> x \<and> x < nxt w'"
  with assms obtain p where "p \<in> set rest" "set (children (objs w' x)) \<subseteq> set (children (objs w p))"
    by blast
  then show "\<exists>p\<in>set (e # rest). set (children (objs w' x)) \<subseteq> set (children (objs w p))"
    by (intro bexI [of _ p]) simp_all
qed

lemma chunk_post_entries_weaken:
  assumes "\<forall>r\<in>set new.
           (r \<in> set rest \<and> r < nxt w \<and> tag (objs w r) = ''chapter'' \<and>
            get (objs w r) ''eid'' = None) \<or>
           (nxt w \<le> r \<and>
            (\<exists>p\<in>set rest. tag (objs w p) = ''para'' \<and> some_verse_in_range w p sv ev \<and>
                 objs w' r = filtered_copy w p sv ev))"
  shows "\<forall>r\<in>set new.
           (r \<in> set (e # rest) \<and> r < nxt w \<and> tag (objs w r) = ''chapter'' \<and>
            get (objs w r) ''eid'' = None) \<or>
           (nxt w \<le> r \<and>
            (\<exists>p\<in>set (e # rest). tag (objs w p) = ''para'' \<and> some_verse_in_range w p sv ev \<and>
                 objs w' r = filtered_copy w p sv ev))"
proof
  fix r assume "r \<in> set new"
  with assms have
    "(r \<in> set rest \<and> r < nxt w \<and> tag (objs w r) = ''chapter'' \<and>
            get (objs w r) ''eid'' = None) \<or>
           (nxt w \<le> r \<and>
            (\<exists>p\<in>set rest. tag (objs w p) = ''para'' \<and> some_verse_in_range w p sv ev \<and>
                 objs w' r = filtered_copy w p sv ev))"
    by blast
  then show "(r \<in> set (e # rest) \<and> r < nxt w \<and> tag (objs w r) = ''chapter'' \<and>
            get (objs w r) ''eid'' = None) \<or>
           (nxt w \<le> r \<and>
            (\<exists>p\<in>set (e # rest). tag (objs w p) = ''para'' \<and> some_verse_in_range w p sv ev \<and>
                 objs w' r = filtered_copy w p sv ev))"
    by auto
qed

lemma filtered_copy_agree:
  "objs w' p = objs w p \<Longrightarrow> \<forall>c\<in>set (children (objs w p)). objs w' c = objs w c \<Longrightarrow>
   filtered_copy w' p sv ev = filtered_copy w p sv ev"
proof -
  assume p: "objs w' p = objs w p" and c: "\<forall>c\<in>set (children (objs w p)). objs w' c = objs w c"
  have k: "filter (keeps w' sv ev) (children (objs w p)) =
           filter (keeps w sv ev) (children (objs w p))"
    using c by (intro filter_cong refl) (simp add: keeps_def in_range_def)
  have t: "map (tail_text w') (filter (keeps w sv ev) (children (objs w p))) =
           map (tail_text w) (filter (keeps w sv ev) (children (objs w p)))"
    using c by (intro map_cong refl) (simp add: tail_text_def)
  show ?thesis
    by (simp add: filtered_copy_def p k t)
qed

lemma chunk_postD:
  assumes "chunk_post w content sv ev w' new"
  shows "nxt w \<le> nxt w'" "files w' = files w" "stdout w' = stdout w"
    "\<forall>x. x < nxt w \<or> nxt w' \<le> x \<longrightarrow> objs w' x = objs w x" "\<forall>r\<in>set new. r < nxt w'"
    "map (\<lambda>c. (tag (objs w' c), attrib (objs w' c))) new = chunk_outline w content sv ev"
    "\<forall>x. nxt w \<le> x \<and> x < nxt w' \<longrightarrow>
            (\<exists>p\<in>set content. set (children (objs w' x)) \<subseteq> set (children (objs w p)))"
    "\<forall>r\<in>set new.
           (r \<in> set content \<and> r < nxt w \<and> tag (objs w r) = ''chapter'' \<and>
            get (objs w r) ''eid'' = None) \<or>
           (nxt w \<le> r \<and>
            (\<exists>p\<in>set content. tag (objs w p) = ''para'' \<and> some_verse_in_range w p sv ev \<and>
                 objs w' r = filtered_copy w p sv ev))"
proof -
  note a = assms [unfolded chunk_post_def]
  show "nxt w \<le> nxt w'" by (rule a [THEN conjunct1])
  show "files w' = files w" by (rule a [THEN conjunct2, THEN conjunct1])
  show "stdout w' = stdout w" by (rule a [THEN conjunct2, THEN conjunct2, THEN conjunct1])
  show "\<forall>x. x < nxt w \<or> nxt w' \<le> x \<longrightarrow> objs w' x = objs w x"
    by (rule a [THEN conjunct2, THEN conjunct2, THEN conjunct2, THEN conjunct1])
  show "\<forall>r\<in>set new. r < nxt w'"
    by (rule a [THEN conjunct2, THEN conjunct2, THEN conjunct2, THEN conjunct2, THEN conjunct1])
  show "map (\<lambda>c. (tag (objs w' c), attrib (objs w' c))) new = chunk_outline w content sv ev"
    by (rule a [THEN conjunct2, THEN conjunct2, THEN conjunct2, THEN conjunct2, THEN conjunct2,
               THEN conjunct1])
  show "\<forall>x. nxt w \<le> x \<and> x < nxt w' \<longrightarrow>
            (\<exists>p\<in>set content. set (children (objs w' x)) \<subseteq> set (children (objs w p)))"
    by (rule a [THEN conjunct2, THEN conjunct2, THEN conjunct2, THEN conjunct2, THEN conjunct2,
               THEN conjunct2, THEN conjunct1])
  show "\<forall>r\<in>set new.
           (r \<in> set content \<and> r < nxt w \<and> tag (objs w r) = ''chapter'' \<and>
            get (objs w r) ''eid'' = None) \<or>
           (nxt w \<le> r \<and>
            (\<exists>p\<in>set content. tag (objs w p) = ''para'' \<and> some_verse_in_range w p sv ev \<and>
                 objs w' r = filtered_copy w p sv ev))"
    by (rule a [THEN conjunct2, THEN conjunct2, THEN conjunct2, THEN conjunct2, THEN conjunct2,
               THEN conjunct2, THEN conjunct2])
qed

lemma chunk_post_skip:
  assumes "chunk_post w rest sv ev w' new" and "chunk_outline w [e] sv ev = []"
  shows "chunk_post w (e # rest) sv ev w' new"
proof -
  note f = chunk_postD [OF assms(1)]
  have o: "map (\<lambda>c. (tag (objs w' c), attrib (objs w' c))) new = chunk_outline w (e # rest) sv ev"
    unfolding chunk_outline_Cons [of w e rest] assms(2) f(6) by simp
  show ?thesis
    unfolding chunk_post_def
    using f(1) f(2) f(3) f(4) f(5) o chunk_post_fresh_weaken [OF f(7), of e]
      chunk_post_entries_weaken [OF f(8), of e]
    by (intro conjI)
qed

lemma chunk_post_marker:
  assumes "chunk_post w rest sv ev w' new" and "e < nxt w"
    and "chunk_outline w [e] sv ev = [(tag (objs w e), attrib (objs w e))]"
    and "tag (objs w e) = ''chapter'' \<and> get (objs w e) ''eid'' = None"
  shows "chunk_post w (e # rest) sv ev w' (e # new)"
proof -
  note f = chunk_postD [OF assms(1)]
  from f(4) assms(2) have same: "objs w' e = objs w e" by blast
  have o: "map (\<lambda>c. (tag (objs w' c), attrib (objs w' c))) (e # new) =
           chunk_outline w (e # rest) sv ev"
    unfolding chunk_outline_Cons [of w e rest] assms(3) using f(6) same by simp
  have lt: "\<forall>r\<in>set (e # new). r < nxt w'"
    using f(5) f(1) assms(2) by simp
  have en: "\<forall>r\<in>set (e # new).
           (r \<in> set (e # rest) \<and> r < nxt w \<and> tag (objs w r) = ''chapter'' \<and>
            get (objs w r) ''eid'' = None) \<or>
           (nxt w \<le> r \<and>
            (\<exists>p\<in>set (e # rest). tag (objs w p) = ''para'' \<and> some_verse_in_range w p sv ev \<and>
                 objs w' r = filtered_copy w p sv ev))"
    using chunk_post_entries_weaken [OF f(8), of e] assms(2) assms(4) by simp
  show ?thesis
    unfolding chunk_post_def
    using f(1) f(2) f(3) f(4) lt o chunk_post_fresh_weaken [OF f(7), of e] en
    by (intro conjI)
qed

text \<open>
  For allocated content whose verse numbers are integers the chunk loop returns. It
  changes no existing object; the new objects are paragraph copies whose children are
  children of paragraphs of the content; and the chunk has the outline \<open>chunk_outline\<close>.
\<close>

lemma chunk_scan_result:
  assumes "\<forall>p\<in>set content. p < nxt w \<and> (\<forall>c\<in>set (children (objs w p)). c < nxt w)"
    and "\<forall>p\<in>set content. tag (objs w p) = ''para'' \<longrightarrow> numeric_verses w p"
  shows "\<exists>w' new. chunk_scan w content sv ev acc = Inr (w', acc @ new) \<and>
                   chunk_post w content sv ev w' new"
  using assms
proof (induction content arbitrary: w acc)
  case Nil
  show ?case by (simp add: chunk_post_def)
next
  case (Cons e rest)
  from Cons.prems have e: "e < nxt w" "\<forall>c\<in>set (children (objs w e)). c < nxt w"
    and rest: "\<forall>p\<in>set rest. p < nxt w \<and> (\<forall>c\<in>set (children (objs w p)). c < nxt w)"
    and nrest: "\<forall>p\<in>set rest. tag (objs w p) = ''para'' \<longrightarrow> numeric_verses w p"
    by simp_all
  show ?case
  proof (cases "tag (objs w e) = ''para'' \<and> some_verse_in_range w e sv ev")
    case False
    have ex: "extract_verses_from_para w e sv ev = Inr (w, None)" if "tag (objs w e) = ''para''"
      using that False Cons.prems(2) extract_verses_from_para_eq [OF e, of sv ev] by simp
    show ?thesis
    proof (cases "tag (objs w e) = ''chapter'' \<and> get (objs w e) ''eid'' = None")
      case True
      then have np: "tag (objs w e) \<noteq> ''para''" by auto
      from Cons.IH [OF rest nrest, of "acc @ [e]"] obtain w' new where
        r: "chunk_scan w rest sv ev (acc @ [e]) = Inr (w', (acc @ [e]) @ new)"
        and f: "chunk_post w rest sv ev w' new"
        by blast
      have step: "chunk_scan w (e # rest) sv ev acc = Inr (w', acc @ e # new)"
        using r True np by simp
      have "chunk_outline w [e] sv ev = [(tag (objs w e), attrib (objs w e))]"
        using True np by simp
      from chunk_post_marker [OF f e(1) this True] step show ?thesis by blast
    next
      case nc: False
      from Cons.IH [OF rest nrest, of acc] obtain w' new where
        r: "chunk_scan w rest sv ev acc = Inr (w', acc @ new)"
        and f: "chunk_post w rest sv ev w' new"
        by blast
      have step: "chunk_scan w (e # rest) sv ev acc = Inr (w', acc @ new)"
      proof (cases "tag (objs w e) = ''para''")
        case True
        with r ex show ?thesis by simp
      next
        case False
        with r nc show ?thesis by auto
      qed
      have "chunk_outline w [e] sv ev = []"
        using nc False by simp
      from chunk_post_skip [OF f this] step show ?thesis by blast
    qed
  next
    case True
    then have para: "tag (objs w e) = ''para''" and some: "some_verse_in_range w e sv ev"
      by simp_all
    define w1 where "w1 = w\<lparr>objs := (objs w)(nxt w := filtered_copy w e sv ev), nxt := Suc (nxt w)\<rparr>"
    have ex: "extract_verses_from_para w e sv ev = Inr (w1, Some (nxt w))"
      using para some Cons.prems(2) extract_verses_from_para_eq [OF e, of sv ev]
      by (simp add: w1_def)
    have w1: "nxt w1 = Suc (nxt w)" "files w1 = files w" "stdout w1 = stdout w"
      "\<And>x. x \<noteq> nxt w \<Longrightarrow> objs w1 x = objs w x" "objs w1 (nxt w) = filtered_copy w e sv ev"
      by (simp_all add: w1_def)
    have same: "objs w1 x = objs w x" if "x < nxt w" for x
      using that by (simp add: w1(4))
    have ag: "agree_below (nxt w) w w1" by (simp add: agree_below_def same)
    have kids: "children (objs w1 (nxt w)) \<noteq> []"
      using some_verse_kept [OF some] by (simp add: w1(5) filtered_copy_def Let_def)
    have rest1: "\<forall>p\<in>set rest. p < nxt w1 \<and> (\<forall>c\<in>set (children (objs w1 p)). c < nxt w1)"
    proof (intro ballI conjI)
      fix p assume p: "p \<in> set rest"
      with rest show "p < nxt w1" by (simp add: w1(1) less_Suc_eq)
      fix c assume "c \<in> set (children (objs w1 p))"
      with p rest same [of p] show "c < nxt w1" by (simp add: w1(1) less_Suc_eq)
    qed
    have nrest1: "\<forall>p\<in>set rest. tag (objs w1 p) = ''para'' \<longrightarrow> numeric_verses w1 p"
    proof (intro ballI impI)
      fix p assume p: "p \<in> set rest" "tag (objs w1 p) = ''para''"
      with rest have pp: "p < nxt w" "\<forall>c\<in>set (children (objs w p)). c < nxt w" by simp_all
      from p pp nrest have "numeric_verses w p" by (simp add: same)
      with para_tests_agree(1) [OF ag pp] show "numeric_verses w1 p" by simp
    qed
    from Cons.IH [OF rest1 nrest1, of "acc @ [nxt w]"] obtain w' new where
      r: "chunk_scan w1 rest sv ev (acc @ [nxt w]) = Inr (w', (acc @ [nxt w]) @ new)"
      and f0: "chunk_post w1 rest sv ev w' new"
      by blast
    note f = chunk_postD [OF f0]
    have out1: "chunk_outline w1 rest sv ev = chunk_outline w rest sv ev"
      by (rule chunk_outline_agree [OF ag rest])
    have new0: "objs w' (nxt w) = filtered_copy w e sv ev"
      using f(4) w1 by simp
    have step: "chunk_scan w (e # rest) sv ev acc = Inr (w', acc @ nxt w # new)"
      using r para ex kids by simp
    have old: "\<forall>x. x < nxt w \<or> nxt w' \<le> x \<longrightarrow> objs w' x = objs w x"
    proof (intro allI impI)
      fix x assume "x < nxt w \<or> nxt w' \<le> x"
      with f(1) have a: "x < nxt w1 \<or> nxt w' \<le> x" and b: "x \<noteq> nxt w" by (auto simp: w1(1))
      from f(4) a have "objs w' x = objs w1 x" by blast
      with w1(4) [OF b] show "objs w' x = objs w x" by simp
    qed
    have outl: "map (\<lambda>c. (tag (objs w' c), attrib (objs w' c))) (nxt w # new) =
                chunk_outline w (e # rest) sv ev"
      using f(6) para some by (simp add: out1 new0 filtered_copy_def Let_def)
    have fresh: "\<forall>x. nxt w \<le> x \<and> x < nxt w' \<longrightarrow>
                (\<exists>p\<in>set (e # rest). set (children (objs w' x)) \<subseteq> set (children (objs w p)))"
    proof (intro allI impI)
      fix x assume x: "nxt w \<le> x \<and> x < nxt w'"
      show "\<exists>p\<in>set (e # rest). set (children (objs w' x)) \<subseteq> set (children (objs w p))"
      proof (cases "x = nxt w")
        case True
        then show ?thesis by (auto simp: new0 filtered_copy_def Let_def)
      next
        case False
        with x have "nxt w1 \<le> x \<and> x < nxt w'" by (simp add: w1)
        with f(7) obtain p where p: "p \<in> set rest"
          "set (children (objs w' x)) \<subseteq> set (children (objs w1 p))" by blast
        with rest have "objs w1 p = objs w p" by (simp add: same)
        with p show ?thesis by auto
      qed
    qed
    have lt: "\<forall>r\<in>set (nxt w # new). r < nxt w'"
      using f(5) f(1) by (auto simp: w1(1))
    have n': "nxt w \<le> nxt w'" using f(1) by (simp add: w1(1))
    have fs: "files w' = files w" "stdout w' = stdout w" using f(2) f(3) by (simp_all add: w1)
    have ent: "\<forall>r\<in>set (nxt w # new).
           (r \<in> set (e # rest) \<and> r < nxt w \<and> tag (objs w r) = ''chapter'' \<and>
            get (objs w r) ''eid'' = None) \<or>
           (nxt w \<le> r \<and>
            (\<exists>p\<in>set (e # rest). tag (objs w p) = ''para'' \<and> some_verse_in_range w p sv ev \<and>
                 objs w' r = filtered_copy w p sv ev))"
    proof
      fix r assume r: "r \<in> set (nxt w # new)"
      show "(r \<in> set (e # rest) \<and> r < nxt w \<and> tag (objs w r) = ''chapter'' \<and>
            get (objs w r) ''eid'' = None) \<or>
           (nxt w \<le> r \<and>
            (\<exists>p\<in>set (e # rest). tag (objs w p) = ''para'' \<and> some_verse_in_range w p sv ev \<and>
                 objs w' r = filtered_copy w p sv ev))"
      proof (cases "r = nxt w")
        case True
        have "e \<in> set (e # rest)" by simp
        moreover have "objs w' r = filtered_copy w e sv ev" unfolding True by (rule new0)
        moreover have "nxt w \<le> r" unfolding True by simp
        ultimately show ?thesis using para some by blast
      next
        case False
        with r have rn: "r \<in> set new" by simp
        from f(8) rn have
          "(r \<in> set rest \<and> r < nxt w1 \<and> tag (objs w1 r) = ''chapter'' \<and>
            get (objs w1 r) ''eid'' = None) \<or>
           (nxt w1 \<le> r \<and>
            (\<exists>p\<in>set rest. tag (objs w1 p) = ''para'' \<and> some_verse_in_range w1 p sv ev \<and>
                 objs w' r = filtered_copy w1 p sv ev))"
          by (rule bspec)
        then show ?thesis
        proof (elim disjE conjE bexE)
          assume old: "r \<in> set rest" "tag (objs w1 r) = ''chapter''"
            "get (objs w1 r) ''eid'' = None"
          from old(1) rest have lt: "r < nxt w" by simp
          have eq: "objs w1 r = objs w r" by (rule same [OF lt])
          have "tag (objs w r) = ''chapter''" using old(2) unfolding eq .
          moreover have "get (objs w r) ''eid'' = None" using old(3) unfolding eq .
          moreover have "r \<in> set (e # rest)" using old(1) by simp
          ultimately show ?thesis using lt by blast
        next
          fix p
          assume new: "nxt w1 \<le> r" "p \<in> set rest" "tag (objs w1 p) = ''para''"
            "some_verse_in_range w1 p sv ev" "objs w' r = filtered_copy w1 p sv ev"
          from new(2) rest have pp: "p < nxt w" "\<forall>c\<in>set (children (objs w p)). c < nxt w"
            by simp_all
          have sp: "objs w1 p = objs w p" by (rule same [OF pp(1)])
          have sc: "\<forall>c\<in>set (children (objs w p)). objs w1 c = objs w c"
            using pp(2) same by simp
          have fc: "filtered_copy w1 p sv ev = filtered_copy w p sv ev"
            by (rule filtered_copy_agree [OF sp sc])
          have a: "objs w' r = filtered_copy w p sv ev" using new(5) unfolding fc .
          have b: "some_verse_in_range w p sv ev"
            using new(4) unfolding para_tests_agree(2) [OF ag pp, of sv ev] .
          have c: "tag (objs w p) = ''para''" using new(3) unfolding sp .
          have d: "nxt w \<le> r" using new(1) by (simp add: w1(1))
          have m: "p \<in> set (e # rest)" using new(2) by simp
          from a b c d m show ?thesis by blast
        qed
      qed
    qed
    have "chunk_post w (e # rest) sv ev w' (nxt w # new)"
      unfolding chunk_post_def using n' fs old lt outl fresh ent by (intro conjI)
    with step show ?thesis by blast
  qed
qed

section \<open>What the extraction and the writer do to existing elements\<close>

lemma extract_verses_from_para_new:
  assumes "extract_verses_from_para w p sv ev = Inr (w', Some v)"
  shows "tag (objs w' v) = tag (objs w p) \<and> attrib (objs w' v) = attrib (objs w p)"
proof (cases "has_verses_in_range w (children (objs w p)) sv ev")
  case (Inl e)
  with assms show ?thesis by (simp add: extract_verses_from_para_def)
next
  case (Inr b)
  show ?thesis
  proof (cases b)
    case False
    with Inr assms show ?thesis by (auto simp: extract_verses_from_para_def)
  next
    case True
    define w1 where "w1 = fst (Element w (tag (objs w p)) (attrib (objs w p)))"
    have el: "Element w (tag (objs w p)) (attrib (objs w p)) = (w1, nxt w)"
      by (simp add: w1_def Element_def)
    define r where "r = Some v"
    have ex: "extract_verses_from_para w p sv ev = Inr (w', r)"
      using assms by (simp add: r_def)
    from ex Inr True el obtain w2 collected where
      cc: "copy_children w1 (nxt w) (children (objs w1 p)) sv ev [] = Inr (w2, collected)"
      by (auto simp: extract_verses_from_para_def Let_def split: sum.splits if_splits)
    note res = copy_children_result [OF cc]
    have n1: "tag (objs w1 (nxt w)) = tag (objs w p)" "attrib (objs w1 (nxt w)) = attrib (objs w p)"
      by (simp_all add: w1_def)
    from ex Inr True el cc obtain T where
      w': "w' = set_text w2 (nxt w) T \<or> w' = w2"
      by (auto simp: extract_verses_from_para_def Let_def split: if_splits)
    from extract_verses_from_para_frame [OF ex] have v: "v = nxt w"
      by (simp add: r_def)
    from res have "tag (objs w2 (nxt w)) = tag (objs w1 (nxt w))"
      "attrib (objs w2 (nxt w)) = attrib (objs w1 (nxt w))" by simp_all
    with w' n1 v show ?thesis by auto
  qed
qed

lemma chunk_scan_frame:
  "chunk_scan w content sv ev acc = Inr (w', out) \<Longrightarrow> \<forall>c\<in>set content. c < nxt w \<Longrightarrow>
   nxt w \<le> nxt w' \<and> files w' = files w \<and> stdout w' = stdout w \<and>
   (\<forall>x<nxt w. objs w' x = objs w x) \<and>
   (\<exists>new. out = acc @ new \<and>
      (\<forall>r\<in>set new.
         (r \<in> set content \<and> tag (objs w r) = ''chapter'' \<and> get (objs w r) ''eid'' = None) \<or>
         (nxt w \<le> r \<and> r < nxt w' \<and> tag (objs w' r) = ''para'')))"
proof (induction content arbitrary: w acc)
  case Nil
  then show ?case by simp
next
  case (Cons e rest)
  show ?case
  proof (cases "tag (objs w e) = ''para''")
    case True
    from Cons.prems True obtain w1 r where
      ex: "extract_verses_from_para w e sv ev = Inr (w1, r)"
      by (auto split: sum.splits)
    define add where "add = (case r of None \<Rightarrow> []
                             | Some v \<Rightarrow> if 0 < length (children (objs w1 v)) then [v] else [])"
    have rest: "chunk_scan w1 rest sv ev (acc @ add) = Inr (w', out)"
      using Cons.prems(1) True ex by (cases r) (auto simp: add_def split: if_splits)
    note f = extract_verses_from_para_frame [OF ex]
    have al: "\<forall>c\<in>set rest. c < nxt w1" using Cons.prems(2) f by auto
    from Cons.IH [OF rest al] obtain new where
      ih: "nxt w1 \<le> nxt w'" "files w' = files w1" "stdout w' = stdout w1"
        "\<forall>x<nxt w1. objs w' x = objs w1 x"
        "out = (acc @ add) @ new"
        "\<forall>r\<in>set new.
           (r \<in> set rest \<and> tag (objs w1 r) = ''chapter'' \<and> get (objs w1 r) ''eid'' = None) \<or>
           (nxt w1 \<le> r \<and> r < nxt w' \<and> tag (objs w' r) = ''para'')"
      by blast
    have a: "\<forall>v\<in>set add. nxt w \<le> v \<and> v < nxt w' \<and> tag (objs w' v) = ''para''"
    proof (cases r)
      case None
      then show ?thesis by (simp add: add_def)
    next
      case (Some v)
      with f have v: "v = nxt w" "nxt w1 = Suc (nxt w)" by simp_all
      from ex Some have "tag (objs w1 v) = tag (objs w e)"
        using extract_verses_from_para_new by simp
      moreover have "objs w' v = objs w1 v" using ih(4) v by simp
      ultimately show ?thesis using ih(1) Some v True by (simp add: add_def)
    qed
    have 1: "nxt w \<le> nxt w'" using f ih(1) by simp
    have 2: "files w' = files w" "stdout w' = stdout w" using f ih(2,3) by simp_all
    have 3: "\<forall>x<nxt w. objs w' x = objs w x"
    proof (intro allI impI)
      fix x assume x: "x < nxt w"
      with f have "x < nxt w1" "objs w1 x = objs w x" by simp_all
      with ih(4) show "objs w' x = objs w x" by simp
    qed
    have 4: "out = acc @ (add @ new)" using ih(5) by simp
    have 5: "\<forall>r\<in>set (add @ new).
         (r \<in> set (e # rest) \<and> tag (objs w r) = ''chapter'' \<and> get (objs w r) ''eid'' = None) \<or>
         (nxt w \<le> r \<and> r < nxt w' \<and> tag (objs w' r) = ''para'')"
    proof
      fix r assume "r \<in> set (add @ new)"
      then consider "r \<in> set add" | "r \<in> set new" by auto
      then show "(r \<in> set (e # rest) \<and> tag (objs w r) = ''chapter'' \<and> get (objs w r) ''eid'' = None) \<or>
         (nxt w \<le> r \<and> r < nxt w' \<and> tag (objs w' r) = ''para'')"
      proof cases
        case 1
        with a show ?thesis by simp
      next
        case 2
        from ih(6) 2 have
          "(r \<in> set rest \<and> tag (objs w1 r) = ''chapter'' \<and> get (objs w1 r) ''eid'' = None) \<or>
           (nxt w1 \<le> r \<and> r < nxt w' \<and> tag (objs w' r) = ''para'')"
          by (rule bspec)
        then show ?thesis
        proof (elim disjE conjE)
          assume r: "r \<in> set rest" "tag (objs w1 r) = ''chapter''" "get (objs w1 r) ''eid'' = None"
          with Cons.prems(2) have "r < nxt w" by simp
          with f have "objs w1 r = objs w r" by simp
          with r show ?thesis by simp
        next
          assume "nxt w1 \<le> r" "r < nxt w'" "tag (objs w' r) = ''para''"
          with f show ?thesis by simp
        qed
      qed
    qed
    from 1 2 3 4 5 show ?thesis by blast
  next
    case False
    define add where "add = (if tag (objs w e) = ''chapter'' \<and> get (objs w e) ''eid'' = None
                             then [e] else [])"
    have rest: "chunk_scan w rest sv ev (acc @ add) = Inr (w', out)"
      using Cons.prems(1) False by (auto simp: add_def split: if_splits)
    have al: "\<forall>c\<in>set rest. c < nxt w" using Cons.prems(2) by simp
    from Cons.IH [OF rest al] obtain new where
      ih: "nxt w \<le> nxt w'" "files w' = files w" "stdout w' = stdout w"
        "\<forall>x<nxt w. objs w' x = objs w x"
        "out = (acc @ add) @ new"
        "\<forall>r\<in>set new.
           (r \<in> set rest \<and> tag (objs w r) = ''chapter'' \<and> get (objs w r) ''eid'' = None) \<or>
           (nxt w \<le> r \<and> r < nxt w' \<and> tag (objs w' r) = ''para'')"
      by blast
    have 4: "out = acc @ (add @ new)" using ih(5) by simp
    have 5: "\<forall>r\<in>set (add @ new).
         (r \<in> set (e # rest) \<and> tag (objs w r) = ''chapter'' \<and> get (objs w r) ''eid'' = None) \<or>
         (nxt w \<le> r \<and> r < nxt w' \<and> tag (objs w' r) = ''para'')"
      using ih(6) by (auto simp: add_def)
    from ih(1-4) 4 5 show ?thesis by blast
  qed
qed

lemma create_chunk_file_frame:
  assumes ok: "create_chunk_file lim out w ch n content is_title = Inr w'"
    and alloc: "\<forall>c\<in>set content. c < nxt w"
  shows "agree_below (nxt w) w w'" and "nxt w < nxt w'"
    and "tag (objs w' (nxt w)) = ''usx''"
    and "children (objs w' (nxt w)) =
           (if is_title then [] else [Suc (nxt w)]) @ content @
           (if \<not> is_title \<and> \<not> has_chapter_end w content then [Suc (Suc (nxt w))] else [])"
proof -
  let ?A = "assembled w ch content is_title"
  note p = assembled_props [OF alloc, where n = ch and is_title = is_title]
  from create_chunk_file_result(3) [OF ok alloc]
  have sh: "nxt w' = nxt ?A" "\<And>y. tag (objs w' y) = tag (objs ?A y)"
    "\<And>y. attrib (objs w' y) = attrib (objs ?A y)"
    "\<And>y. children (objs w' y) = children (objs ?A y)"
    by (simp_all add: same_shape_def)
  show "agree_below (nxt w) w w'"
    using p(4) by (simp add: agree_below_def sh)
  show "nxt w < nxt w'" using p(3) by (simp add: sh)
  show "children (objs w' (nxt w)) =
           (if is_title then [] else [Suc (nxt w)]) @ content @
           (if \<not> is_title \<and> \<not> has_chapter_end w content then [Suc (Suc (nxt w))] else [])"
    using p(5) by (simp add: sh)
  have "tag (objs ?A (nxt w)) = ''usx''"
    by (simp add: assembled_def Let_def split_def Element_def SubElement_def fold_append)
  then show "tag (objs w' (nxt w)) = ''usx''" by (simp add: sh)
qed

lemma extract_chapter_content_frame:
  "objs (snd (extract_chapter_content w root num)) = objs w"
  "nxt (snd (extract_chapter_content w root num)) = nxt w"
  "files (snd (extract_chapter_content w root num)) = files w"
  by (simp_all add: extract_chapter_content_def split: prod.splits)

section \<open>The example document\<close>

lemma example_closed: "closed example_doc"
  by code_simp

lemma example_chunk_3:
  "extract_verses_for_chunk example_doc [4, 5, 6] 3 None =
     Inr (example_doc\<lparr>objs := (objs example_doc)
                         (17 := node ''para'' [(''style'', ''p'')] (Some ''Intro three '') None [9]),
                       nxt := 18\<rparr>, [4, 17])"
proof -
  have s6: "some_verse_in_range example_doc 6 3 3"
    by (simp add: example_doc_def world_of_def node_def get_def some_verse_in_range_def
          verse_num_def py_int_def int_space_def is_digit_def digit_val_def in_range_def)
  have t: "tag (objs example_doc 4) = ''chapter''" "get (objs example_doc 4) ''eid'' = None"
    "tag (objs example_doc 5) = ''para''" "tag (objs example_doc 6) = ''para''"
    by (simp_all add: example_doc_def world_of_def node_def get_def)
  have e5: "extract_verses_from_para example_doc 5 3 3 = Inr (example_doc, None)"
    by (simp add: example_doc_def world_of_def node_def get_def extract_verses_from_para_def)
  have nx: "nxt example_doc = 17" by (simp add: example_doc_def world_of_def)
  have fc: "filtered_copy example_doc 6 3 3 =
              node ''para'' [(''style'', ''p'')] (Some ''Intro three '') None [9]"
    by (simp add: example_doc_def world_of_def node_def get_def filtered_copy_def ascii_space_def
          verse_num_def py_int_def int_space_def is_digit_def digit_val_def in_range_def
          keeps_def tail_text_def)
  have e6: "extract_verses_from_para example_doc 6 3 3 =
             Inr (example_doc\<lparr>objs := (objs example_doc)
                         (17 := node ''para'' [(''style'', ''p'')] (Some ''Intro three '') None [9]),
                       nxt := 18\<rparr>, Some 17)"
    by (subst extract_verses_from_para_eq)
       (simp_all add: nx fc s6,
        simp_all add: example_doc_def world_of_def node_def get_def numeric_verses_def
          verse_num_def py_int_def int_space_def is_digit_def digit_val_def)
  show ?thesis
    by (simp add: extract_verses_for_chunk_def t e5 e6 node_def)
qed

section \<open>Evaluating the example document\<close>

lemmas example_simps = example_doc_def world_of_def node_def get_def

lemma str_int_small [simp]:
  "str_int 1 = ''1''" "str_int 2 = ''2''" "str_int 3 = ''3''"
  by (simp_all add: str_int_def digits.simps digit_char_def)

section \<open>Claims about the Chapter Extractor\<close>

text \<open>
  Claim C1 says that the Chapter Extractor returns the span from the chapter's start marker
  to its explicit end marker, the end marker included, where an end marker is a chapter
  element with an end-id and needs no number. In \<open>example_doc\<close> chapter 1 is the top-level
  nodes 4, 5, 6 and its end marker 12 (\<^verbatim>\<open><chapter eid="REV 1"/>\<close>). The extractor returns
  4, 5, 6 without the end marker: a chapter element without the number of the target takes
  the second branch of the scan, which stops without collecting it, so the third branch
  (which the source comments as "the end of our target chapter") is reached only by an end
  marker that also carries the target's number.
\<close>

theorem C1_end_marker_not_collected:
  "children (objs example_doc 0) = [1, 2, 3, 4, 5, 6, 12, 13, 14, 16] \<and>
   is_start_marker example_doc ''1'' 4 \<and>
   tag (objs example_doc 12) = ''chapter'' \<and>
   get (objs example_doc 12) ''eid'' = Some ''REV 1'' \<and>
   get (objs example_doc 12) ''number'' = None \<and>
   extract_chapter_content example_doc 0 (YInt 1) = ([4, 5, 6], example_doc)"
  by (simp add: example_simps is_start_marker_def extract_chapter_content_def)

text \<open>
  Claim C7: when no top-level node is a start marker of the requested chapter, the Chapter
  Extractor returns the empty sequence and prints one warning (it has no error result: the
  call cannot fail), and the Chunk Extractor on the empty sequence returns the empty chunk
  and leaves the world as it was.
\<close>

theorem C7_missing_chapter_is_empty:
  assumes "\<forall>r\<in>set (children (objs w usx_content)). \<not> is_start_marker w (py_str chapter_num) r"
  shows "extract_chapter_content w usx_content chapter_num =
           ([], print w (''Warning: Chapter '' @ py_str chapter_num @ '' start marker not found''))
         \<and> extract_verses_for_chunk w [] start_verse end_verse = Inr (w, [])"
  using chapter_scan_no_start [OF assms, of "[]" False]
  by (simp add: extract_chapter_content_def extract_verses_for_chunk_def)

theorem C7_missing_chapter_witness:
  "list_all (\<lambda>r. \<not> is_start_marker example_doc ''3'' r) (children (objs example_doc 0)) \<and>
   extract_chapter_content example_doc 0 (YInt 3) =
     ([], print example_doc ''Warning: Chapter 3 start marker not found'') \<and>
   extract_verses_for_chunk example_doc [] 1 None = Inr (example_doc, [])"
proof -
  have h: "\<forall>r\<in>set (children (objs example_doc 0)). \<not> is_start_marker example_doc (py_str (YInt 3)) r"
    by (simp add: example_simps is_start_marker_def)
  from C7_missing_chapter_is_empty [OF h, of 1 None] h show ?thesis
    by (simp add: list_all_iff)
qed

section \<open>Claims about the Chunk Extractor\<close>

text \<open>
  A verse marker without a number is verse 0 to both loops of the paragraph filter.
\<close>

lemma has_verses_drop_unnumbered:
  "1 \<le> sv \<Longrightarrow>
   has_verses_in_range w cs sv ev =
     has_verses_in_range w (filter (\<lambda>c. \<not> unnumbered_verse w c) cs) sv ev"
  by (induction cs) (auto simp: unnumbered_verse_def verse_num_def split: sum.splits)

lemma para_copy_children:
  assumes "extract_verses_from_para w p sv ev = Inr (w', Some pc)"
  shows "pc = nxt w \<and>
         children (objs w' pc) =
           filter (keeps (fst (Element w (tag (objs w p)) (attrib (objs w p)))) sv ev)
             (children (objs (fst (Element w (tag (objs w p)) (attrib (objs w p)))) p)) \<and>
         (\<forall>x. tag (objs w' x) = tag (objs (fst (Element w (tag (objs w p)) (attrib (objs w p)))) x) \<and>
              attrib (objs w' x) =
                attrib (objs (fst (Element w (tag (objs w p)) (attrib (objs w p)))) x))"
proof -
  define w1 where "w1 = fst (Element w (tag (objs w p)) (attrib (objs w p)))"
  have el: "Element w (tag (objs w p)) (attrib (objs w p)) = (w1, nxt w)"
    by (simp add: w1_def Element_def)
  have has: "has_verses_in_range w (children (objs w p)) sv ev = Inr True"
  proof (cases "has_verses_in_range w (children (objs w p)) sv ev")
    case (Inl e)
    with assms show ?thesis by (simp add: extract_verses_from_para_def)
  next
    case (Inr b)
    with assms show ?thesis by (cases b) (simp_all add: extract_verses_from_para_def)
  qed
  obtain w2 collected where
    cc: "copy_children w1 (nxt w) (children (objs w1 p)) sv ev [] = Inr (w2, collected)"
  proof (cases "copy_children w1 (nxt w) (children (objs w1 p)) sv ev []")
    case (Inl e)
    with assms el has show ?thesis by (simp add: extract_verses_from_para_def)
  next
    case (Inr x)
    with that show ?thesis by (cases x) simp
  qed
  note res = copy_children_result [OF cc]
  have new1: "children (objs w1 (nxt w)) = []" by (simp add: w1_def)
  define T where "T = (if truthy (text (objs w2 p)) then the (text (objs w2 p)) @ collected
                       else collected)"
  define w3 where "w3 = (if \<not> isspace_all T then set_text w2 (nxt w) T else w2)"
  have "extract_verses_from_para w p sv ev =
          (if 0 < length (children (objs w3 (nxt w))) \<or>
              (truthy (text (objs w3 (nxt w))) \<and> \<not> blank (text (objs w3 (nxt w))))
           then Inr (w3, Some (nxt w)) else Inr (w3, None))"
    by (simp add: extract_verses_from_para_def has el cc Let_def w3_def T_def)
  with assms have "w' = w3" "pc = nxt w"
    by (simp_all split: if_splits)
  then have w': "w' = set_text w2 (nxt w) T \<or> w' = w2" and pc: "pc = nxt w"
    by (simp_all add: w3_def)
  have w2_shape: "tag (objs w2 x) = tag (objs w1 x) \<and> attrib (objs w2 x) = attrib (objs w1 x)" for x
    using res by (cases "x = nxt w") simp_all
  have "children (objs w' (nxt w)) = filter (keeps w1 sv ev) (children (objs w1 p))"
    using w' res new1 by auto
  moreover have "tag (objs w' x) = tag (objs w1 x) \<and> attrib (objs w' x) = attrib (objs w1 x)" for x
    using w' w2_shape [of x] by auto
  ultimately show ?thesis using pc by (simp add: w1_def)
qed

text \<open>
  Claim C9: a verse marker without a number attribute counts as verse 0 (the default of
  \<^verbatim>\<open>child.get('number', 0)\<close>). For a range that starts at 1 or later, such markers do not
  make a paragraph count as having content in range (the test gives the same answer with
  them removed), and no paragraph copy that the filter returns has such a marker among its
  children.
\<close>

theorem C9_verse_without_number:
  assumes "1 \<le> start_verse"
  shows "(get child ''number'' = None \<longrightarrow> verse_num child = Inr 0) \<and>
         has_verses_in_range w cs start_verse end_verse =
           has_verses_in_range w (filter (\<lambda>c. \<not> unnumbered_verse w c) cs) start_verse end_verse \<and>
         (extract_verses_from_para w p start_verse end_verse = Inr (w', Some para_copy) \<longrightarrow>
            (\<forall>c\<in>set (children (objs w' para_copy)). \<not> unnumbered_verse w' c))"
proof (intro conjI impI ballI)
  assume "get child ''number'' = None"
  then show "verse_num child = Inr 0" by (simp add: verse_num_def)
next
  show "has_verses_in_range w cs start_verse end_verse =
        has_verses_in_range w (filter (\<lambda>c. \<not> unnumbered_verse w c) cs) start_verse end_verse"
    using assms by (rule has_verses_drop_unnumbered)
next
  fix c
  assume ex: "extract_verses_from_para w p start_verse end_verse = Inr (w', Some para_copy)"
    and c: "c \<in> set (children (objs w' para_copy))"
  define w1 where "w1 = fst (Element w (tag (objs w p)) (attrib (objs w p)))"
  from para_copy_children [OF ex, folded w1_def] have
    kids: "children (objs w' para_copy) =
             filter (keeps w1 start_verse end_verse) (children (objs w1 p))"
    and shape: "\<forall>x. tag (objs w' x) = tag (objs w1 x) \<and> attrib (objs w' x) = attrib (objs w1 x)"
    by blast+
  from c have "keeps w1 start_verse end_verse c" unfolding kids by simp
  with assms have "\<not> unnumbered_verse w1 c"
    by (cases "get (objs w1 c) ''number''")
       (auto simp: keeps_def in_range_def unnumbered_verse_def verse_num_def split: if_splits)
  with shape show "\<not> unnumbered_verse w' c"
    by (simp add: unnumbered_verse_def get_def)
qed

lemmas verse_simps = verse_num_def py_int_def int_space_def is_digit_def digit_val_def
  in_range_def keeps_def tail_text_def

theorem C9_verse_without_number_witness:
  "(1::int) \<le> 1 \<and>
   get (objs verse0_doc 1) ''number'' = None \<and>
   verse_num (objs verse0_doc 1) = Inr 0 \<and>
   filter (\<lambda>c. \<not> unnumbered_verse verse0_doc c) [1, 2, 3] = [2, 3] \<and>
   has_verses_in_range verse0_doc [1, 2, 3] 1 1 = has_verses_in_range verse0_doc [2, 3] 1 1 \<and>
   extract_verses_from_para verse0_doc 0 1 1 =
     Inr (verse0_doc\<lparr>objs := (objs verse0_doc)
                        (4 := node ''para'' [(''style'', ''p'')] (Some ''one  end'') None [2, 3]),
                     nxt := 5\<rparr>, Some 4) \<and>
   list_all (\<lambda>c. \<not> unnumbered_verse
                     (verse0_doc\<lparr>objs := (objs verse0_doc)
                        (4 := node ''para'' [(''style'', ''p'')] (Some ''one  end'') None [2, 3]),
                     nxt := 5\<rparr>) c) [2, 3]"
proof -
  let ?W = "verse0_doc\<lparr>objs := (objs verse0_doc)
                        (4 := node ''para'' [(''style'', ''p'')] (Some ''one  end'') None [2, 3]),
                     nxt := 5\<rparr>"
  have n: "nxt verse0_doc = 4" by (simp add: verse0_doc_def world_of_def)
  have f: "filter (\<lambda>c. \<not> unnumbered_verse verse0_doc c) [1, 2, 3] = [2, 3]"
    by (simp add: verse0_doc_def world_of_def node_def get_def unnumbered_verse_def)
  have fc: "filtered_copy verse0_doc 0 1 1 =
              node ''para'' [(''style'', ''p'')] (Some ''one  end'') None [2, 3]"
    by (simp add: verse0_doc_def world_of_def node_def get_def filtered_copy_def verse_simps
          ascii_space_def)
  have e: "extract_verses_from_para verse0_doc 0 1 1 = Inr (?W, Some 4)"
    by (subst extract_verses_from_para_eq)
       (simp_all add: n fc,
        simp_all add: verse0_doc_def world_of_def node_def get_def numeric_verses_def
          some_verse_in_range_def verse_simps)
  have k: "children (objs ?W 4) = [2, 3]" by (simp add: node_def)
  from C9_verse_without_number [of 1 "objs verse0_doc 1" verse0_doc "[1, 2, 3]" 1 0 ?W 4] e f k
  show ?thesis
    by (simp add: list_all_iff)
       (simp add: verse0_doc_def world_of_def node_def get_def)
qed

text \<open>
  Claim C2 says that for a paragraph with verse markers 1 to 5 and the range [3, 3] the
  copy holds verse 3's marker and its trailing text only, the paragraph's leading text
  excluded. The paragraph 6 of \<open>example_doc\<close> has the leading text "Intro " before verse 1;
  the copy made for verse 3 has the text "Intro three ": the leading text comes first (the
  source prepends \<^verbatim>\<open>para_element.text\<close> to the collected tails).
\<close>

theorem C2_leading_text_is_kept:
  "text (objs example_doc 6) = Some ''Intro '' \<and>
   tail (objs example_doc 9) = Some ''three '' \<and>
   extract_verses_for_chunk example_doc [6] 3 (Some 3) =
     Inr (example_doc\<lparr>objs := (objs example_doc)
                         (17 := node ''para'' [(''style'', ''p'')] (Some ''Intro three '') None [9]),
                       nxt := 18\<rparr>, [17])"
proof -
  have n: "nxt example_doc = 17" by (simp add: example_simps)
  have fc: "filtered_copy example_doc 6 3 3 =
              node ''para'' [(''style'', ''p'')] (Some ''Intro three '') None [9]"
    by (simp add: example_simps filtered_copy_def verse_simps ascii_space_def)
  have e: "extract_verses_from_para example_doc 6 3 3 =
             Inr (example_doc\<lparr>objs := (objs example_doc)
                         (17 := node ''para'' [(''style'', ''p'')] (Some ''Intro three '') None [9]),
                       nxt := 18\<rparr>, Some 17)"
    by (subst extract_verses_from_para_eq)
       (simp_all add: n fc,
        simp_all add: example_simps numeric_verses_def some_verse_in_range_def verse_simps)
  have t: "tag (objs example_doc 6) = ''para''" by (simp add: example_simps)
  show ?thesis
    by (simp add: extract_verses_for_chunk_def e t)
       (simp add: example_simps)
qed

text \<open>
  Claim C2 as the code has it: for an allocated paragraph whose children are five verse
  markers numbered 1 to 5, the Chunk Extractor with the range [3, 3] returns one new
  element. It has the paragraph's tag and attributes, verse 3's marker as its only child
  (the marker itself, with its tail), and as text the paragraph's leading text followed by
  verse 3's trailing text, when that is not blank. The text of the other verses is in
  neither. Nothing else in the store changes.
\<close>

theorem C2_single_verse_of_five:
  assumes "p < nxt w" and "tag (objs w p) = ''para''"
    and "children (objs w p) = [v1, v2, v3, v4, v5]"
    and "list_all (\<lambda>c. c < nxt w \<and> tag (objs w c) = ''verse'') [v1, v2, v3, v4, v5]"
    and "map (\<lambda>c. verse_num (objs w c)) [v1, v2, v3, v4, v5] = [Inr 1, Inr 2, Inr 3, Inr 4, Inr 5]"
  shows "extract_verses_for_chunk w [p] 3 (Some 3) =
           Inr (w\<lparr>objs := (objs w)
                     (nxt w :=
                        \<lparr>tag = ''para'', attrib = attrib (objs w p),
                         text = (if isspace_all
                                      ((case text (objs w p) of None \<Rightarrow> [] | Some t \<Rightarrow> t) @
                                       (case tail (objs w v3) of None \<Rightarrow> [] | Some t \<Rightarrow> t))
                                 then None
                                 else Some ((case text (objs w p) of None \<Rightarrow> [] | Some t \<Rightarrow> t) @
                                            (case tail (objs w v3) of None \<Rightarrow> [] | Some t \<Rightarrow> t))),
                         tail = None, children = [v3]\<rparr>),
                  nxt := Suc (nxt w)\<rparr>, [nxt w])"
proof -
  have num: "numeric_verses w p"
    using assms by (simp add: numeric_verses_def)
  have some: "some_verse_in_range w p 3 3"
    using assms by (simp add: some_verse_in_range_def in_range_def)
  have kids: "\<forall>c\<in>set (children (objs w p)). c < nxt w"
    using assms by simp
  have fc: "filtered_copy w p 3 3 =
              \<lparr>tag = ''para'', attrib = attrib (objs w p),
               text = (if isspace_all
                            ((case text (objs w p) of None \<Rightarrow> [] | Some t \<Rightarrow> t) @
                             (case tail (objs w v3) of None \<Rightarrow> [] | Some t \<Rightarrow> t))
                       then None
                       else Some ((case text (objs w p) of None \<Rightarrow> [] | Some t \<Rightarrow> t) @
                                  (case tail (objs w v3) of None \<Rightarrow> [] | Some t \<Rightarrow> t))),
               tail = None, children = [v3]\<rparr>"
    using assms by (simp add: filtered_copy_def keeps_def in_range_def tail_text_def)
  have "extract_verses_from_para w p 3 3 =
          Inr (w\<lparr>objs := (objs w)(nxt w := filtered_copy w p 3 3), nxt := Suc (nxt w)\<rparr>,
               Some (nxt w))"
    using extract_verses_from_para_eq [OF assms(1) kids num, of 3 3] some by simp
  then show ?thesis
    using assms(2) by (simp add: extract_verses_for_chunk_def fc)
qed

theorem C2_single_verse_of_five_witness:
  "(6::nat) < nxt example_doc \<and> tag (objs example_doc 6) = ''para'' \<and>
   children (objs example_doc 6) = [7, 8, 9, 10, 11] \<and>
   list_all (\<lambda>c. c < nxt example_doc \<and> tag (objs example_doc c) = ''verse'') [7, 8, 9, 10, 11] \<and>
   map (\<lambda>c. verse_num (objs example_doc c)) [7, 8, 9, 10, 11] = [Inr 1, Inr 2, Inr 3, Inr 4, Inr 5] \<and>
   extract_verses_for_chunk example_doc [6] 3 (Some 3) =
     Inr (example_doc\<lparr>objs := (objs example_doc)
                         (17 := node ''para'' [(''style'', ''p'')] (Some ''Intro three '') None [9]),
                       nxt := 18\<rparr>, [17])"
proof -
  have h1: "(6::nat) < nxt example_doc" and h2: "tag (objs example_doc 6) = ''para''"
    and h3: "children (objs example_doc 6) = [7, 8, 9, 10, 11]"
    and h4: "list_all (\<lambda>c. c < nxt example_doc \<and> tag (objs example_doc c) = ''verse'')
               [7, 8, 9, 10, 11]"
    by (simp_all add: example_simps)
  have h5: "map (\<lambda>c. verse_num (objs example_doc c)) [7, 8, 9, 10, 11] =
              [Inr 1, Inr 2, Inr 3, Inr 4, Inr 5]"
    by (simp add: example_simps verse_simps)
  have facts: "text (objs example_doc 6) = Some ''Intro ''"
    "tail (objs example_doc 9) = Some ''three ''"
    "attrib (objs example_doc 6) = [(''style'', ''p'')]" "nxt example_doc = 17"
    by (simp_all add: example_simps)
  from C2_single_verse_of_five [OF h1 h2 h3 h4 h5] h1 h2 h3 h4 h5 show ?thesis
    by (simp add: facts node_def ascii_space_def)
qed

text \<open>
  Claim C8 says that a paragraph in which no verse marker's number falls within the
  requested range contributes nothing to the chunk. The paragraph of \<open>bridge_doc\<close> holds
  the verse bridge \<^verbatim>\<open><verse number="1-2"/>\<close> and verse 3; for the range [7, 7] no marker of
  it is in range, but the paragraph filter does not return: \<^verbatim>\<open>int('1-2')\<close> raises
  \<^verbatim>\<open>ValueError\<close> in its first loop, and the Chunk Extractor raises with it.
\<close>

theorem C8_verse_bridge_raises:
  "children (objs bridge_doc 0) = [1, 2] \<and>
   get (objs bridge_doc 1) ''number'' = Some ''1-2'' \<and>
   get (objs bridge_doc 2) ''number'' = Some ''3'' \<and>
   some_verse_in_range bridge_doc 0 7 7 = False \<and>
   extract_verses_from_para bridge_doc 0 7 7 = Inl (ValueError ''1-2'') \<and>
   extract_verses_for_chunk bridge_doc [0] 7 None = Inl (ValueError ''1-2'')"
  by (simp add: bridge_doc_def world_of_def node_def get_def some_verse_in_range_def
        extract_verses_for_chunk_def extract_verses_from_para_def verse_simps)

text \<open>
  Claim C8 as the code has it, for content that is in the store and whose verse markers
  have integer numbers or none. A paragraph without a verse in range makes the paragraph
  filter return \<^verbatim>\<open>None\<close> and leave the world as it was: nothing is allocated, not even an
  empty copy. The Chunk Extractor returns; it changes no existing element; the entries of
  the chunk are, in the order of the content, one paragraph for each paragraph with a verse
  in range and the chapter start markers (\<open>chunk_outline\<close>); and every entry is either a
  chapter start marker of the content, the element itself, or a new element that is the
  filtered copy of a paragraph of the content with a verse in range. (The end of the
  range defaults to its start.)
\<close>

theorem C8_paragraph_without_verse_in_range:
  assumes "allocated w chapter_content"
    and "list_all (numeric_verses w) (filter (\<lambda>p. tag (objs w p) = ''para'') chapter_content)"
  shows "(numeric_verses w p \<and> \<not> some_verse_in_range w p start_verse end_verse \<longrightarrow>
            extract_verses_from_para w p start_verse end_verse = Inr (w, None)) \<and>
         (\<exists>w' chunk.
            extract_verses_for_chunk w chapter_content start_verse end_opt = Inr (w', chunk) \<and>
            (\<forall>x<nxt w. objs w' x = objs w x) \<and>
            map (\<lambda>r. (tag (objs w' r), attrib (objs w' r))) chunk =
              chunk_outline w chapter_content start_verse
                (case end_opt of None \<Rightarrow> start_verse | Some e \<Rightarrow> e) \<and>
            (\<forall>r\<in>set chunk.
               (r \<in> set chapter_content \<and> r < nxt w \<and> tag (objs w r) = ''chapter'' \<and>
                get (objs w r) ''eid'' = None) \<or>
               (nxt w \<le> r \<and>
                (\<exists>p\<in>set chapter_content. tag (objs w p) = ''para'' \<and>
                   some_verse_in_range w p start_verse
                     (case end_opt of None \<Rightarrow> start_verse | Some e \<Rightarrow> e) \<and>
                   objs w' r = filtered_copy w p start_verse
                     (case end_opt of None \<Rightarrow> start_verse | Some e \<Rightarrow> e)))))"
proof (rule conjI)
  show "numeric_verses w p \<and> \<not> some_verse_in_range w p start_verse end_verse \<longrightarrow>
            extract_verses_from_para w p start_verse end_verse = Inr (w, None)"
  proof
    assume a: "numeric_verses w p \<and> \<not> some_verse_in_range w p start_verse end_verse"
    then have "has_verses_in_range w (children (objs w p)) start_verse end_verse = Inr False"
      by (simp add: numeric_verses_def some_verse_in_range_def has_verses_numeric)
    then show "extract_verses_from_para w p start_verse end_verse = Inr (w, None)"
      by (simp add: extract_verses_from_para_def)
  qed
next
  let ?ev = "case end_opt of None \<Rightarrow> start_verse | Some e \<Rightarrow> e"
  have al: "\<forall>p\<in>set chapter_content. p < nxt w \<and> (\<forall>c\<in>set (children (objs w p)). c < nxt w)"
    using assms(1) by (simp add: allocated_iff)
  have nu: "\<forall>p\<in>set chapter_content. tag (objs w p) = ''para'' \<longrightarrow> numeric_verses w p"
    using assms(2) by (simp add: list_all_iff)
  from chunk_scan_result [OF al nu, of start_verse ?ev "[]"] obtain w' new where
    r: "chunk_scan w chapter_content start_verse ?ev [] = Inr (w', [] @ new)"
    and post: "chunk_post w chapter_content start_verse ?ev w' new"
    by blast
  note d = chunk_postD [OF post]
  have a: "extract_verses_for_chunk w chapter_content start_verse end_opt = Inr (w', new)"
    using r by (simp add: extract_verses_for_chunk_def)
  have b: "\<forall>x<nxt w. objs w' x = objs w x" using d(4) by blast
  from a b d(6) d(8) show "\<exists>w' chunk.
            extract_verses_for_chunk w chapter_content start_verse end_opt = Inr (w', chunk) \<and>
            (\<forall>x<nxt w. objs w' x = objs w x) \<and>
            map (\<lambda>r. (tag (objs w' r), attrib (objs w' r))) chunk =
              chunk_outline w chapter_content start_verse ?ev \<and>
            (\<forall>r\<in>set chunk.
               (r \<in> set chapter_content \<and> r < nxt w \<and> tag (objs w r) = ''chapter'' \<and>
                get (objs w r) ''eid'' = None) \<or>
               (nxt w \<le> r \<and>
                (\<exists>p\<in>set chapter_content. tag (objs w p) = ''para'' \<and>
                   some_verse_in_range w p start_verse ?ev \<and>
                   objs w' r = filtered_copy w p start_verse ?ev)))"
    by (intro exI [of _ w'] exI [of _ new] conjI)
qed

theorem C8_paragraph_without_verse_in_range_witness:
  "allocated example_doc [4, 5, 6] \<and>
   list_all (numeric_verses example_doc)
     (filter (\<lambda>p. tag (objs example_doc p) = ''para'') [4, 5, 6]) \<and>
   numeric_verses example_doc 5 \<and>
   some_verse_in_range example_doc 5 3 3 = False \<and>
   extract_verses_from_para example_doc 5 3 3 = Inr (example_doc, None) \<and>
   chunk_outline example_doc [4, 5, 6] 3 3 =
     [(''chapter'', [(''number'', ''1''), (''style'', ''c''), (''sid'', ''REV 1'')]),
      (''para'', [(''style'', ''p'')])] \<and>
   extract_verses_for_chunk example_doc [4, 5, 6] 3 None =
     Inr (example_doc\<lparr>objs := (objs example_doc)
                         (17 := node ''para'' [(''style'', ''p'')] (Some ''Intro three '') None [9]),
                       nxt := 18\<rparr>, [4, 17])"
proof -
  have a: "allocated example_doc [4, 5, 6]"
    by (simp add: example_simps allocated_def)
  have n: "list_all (numeric_verses example_doc)
             (filter (\<lambda>p. tag (objs example_doc p) = ''para'') [4, 5, 6])"
    by (simp add: example_simps numeric_verses_def verse_simps)
  have n5: "numeric_verses example_doc 5" and s5: "some_verse_in_range example_doc 5 3 3 = False"
    by (simp_all add: example_simps numeric_verses_def some_verse_in_range_def)
  have s6: "some_verse_in_range example_doc 6 3 3"
    by (simp add: example_simps some_verse_in_range_def verse_simps)
  have t: "tag (objs example_doc 4) = ''chapter''" "get (objs example_doc 4) ''eid'' = None"
    "tag (objs example_doc 5) = ''para''" "tag (objs example_doc 6) = ''para''"
    "attrib (objs example_doc 4) = [(''number'', ''1''), (''style'', ''c''), (''sid'', ''REV 1'')]"
    "attrib (objs example_doc 6) = [(''style'', ''p'')]"
    by (simp_all add: example_simps)
  have o: "chunk_outline example_doc [4, 5, 6] 3 3 =
     [(''chapter'', [(''number'', ''1''), (''style'', ''c''), (''sid'', ''REV 1'')]),
      (''para'', [(''style'', ''p'')])]"
    by (simp add: t s5 s6)
  have e5: "extract_verses_from_para example_doc 5 3 3 = Inr (example_doc, None)"
    by (simp add: example_simps extract_verses_from_para_def)
  have nx: "nxt example_doc = 17" by (simp add: example_simps)
  have fc: "filtered_copy example_doc 6 3 3 =
              node ''para'' [(''style'', ''p'')] (Some ''Intro three '') None [9]"
    by (simp add: example_simps filtered_copy_def verse_simps ascii_space_def)
  have e6: "extract_verses_from_para example_doc 6 3 3 =
             Inr (example_doc\<lparr>objs := (objs example_doc)
                         (17 := node ''para'' [(''style'', ''p'')] (Some ''Intro three '') None [9]),
                       nxt := 18\<rparr>, Some 17)"
    by (subst extract_verses_from_para_eq)
       (simp_all add: nx fc s6,
        simp_all add: example_simps numeric_verses_def verse_simps)
  have c: "extract_verses_for_chunk example_doc [4, 5, 6] 3 None =
     Inr (example_doc\<lparr>objs := (objs example_doc)
                         (17 := node ''para'' [(''style'', ''p'')] (Some ''Intro three '') None [9]),
                       nxt := 18\<rparr>, [4, 17])"
    by (simp add: extract_verses_for_chunk_def t e5 e6 node_def)
  from C8_paragraph_without_verse_in_range [OF a n, of 5 3 3 None] a n n5 s5 e5 o c
  show ?thesis by blast
qed

section \<open>Claims about the source tree and the output documents\<close>




section \<open>Claims about the driver\<close>

text \<open>
  Claim C5 says that for a document whose first top-level node is a book element, followed
  by heading paragraphs before the first chapter marker, \<^verbatim>\<open>front/title.usx\<close> holds exactly
  those leading nodes, the book element among them. \<open>example_doc\<close> begins with
  \<^verbatim>\<open><book code="REV" style="id">\<close> and two paragraphs of styles \<^verbatim>\<open>h\<close> and \<^verbatim>\<open>mt1\<close>. The
  loop collects the two paragraphs and not the book element: its test asks a book element
  for a style of the front-matter list as well, and the style of a book element is \<^verbatim>\<open>id\<close>
  (the writer of this very program gives its own book nodes that style).
\<close>

theorem C5_book_element_left_out:
  "children (objs example_doc 0) = [1, 2, 3, 4, 5, 6, 12, 13, 14, 16] \<and>
   tag (objs example_doc 1) = ''book'' \<and> get (objs example_doc 1) ''style'' = Some ''id'' \<and>
   tag (objs example_doc 4) = ''chapter'' \<and>
   front_scan example_doc (children (objs example_doc 0)) [] = [2, 3] \<and>
   map_option top_level
     (written (process_front_matter 10 [''out''] 0 example_doc
                 \<lparr>chapter = YStr ''front'', chunks = [YStr ''title'']\<rparr>)
        [''out'', ''front'', ''title.usx'']) =
     Some [(''para'', [(''style'', ''h'')]), (''para'', [(''style'', ''mt1'')])]"
  by code_simp

text \<open>
  Claim C6 says that the book code given with \<^verbatim>\<open>--book-code\<close> is the code of the book node
  and of the synthesized end marker of every non-title file. \<^verbatim>\<open>main\<close> parses the option and
  its help text promises it ("Book code for the USX file", with an example for
  \<^verbatim>\<open>--book-code GEN\<close>), but the splitter is built from the three positional arguments only:
  the run does not depend on the option at all, and with \<^verbatim>\<open>--book-code GEN\<close> the file for
  verse 3 of chapter 1 has the book code \<^verbatim>\<open>REV\<close> and the end-id \<^verbatim>\<open>REV 1\<close>.
\<close>

theorem C6_book_code_ignored:
  "main lim (a\<lparr>book_code := code\<rparr>) usx_files toc_files w = main lim a usx_files toc_files w \<and>
   book_code gen_args = ''GEN'' \<and>
   apfst (file_outline [''out'', ''01'', ''03.usx''])
     (main 10 gen_args gen_usx_files gen_toc_files example_doc) =
     (Some [(''book'', [(''code'', ''REV''), (''style'', ''id'')]),
            (''chapter'', [(''number'', ''1''), (''style'', ''c''), (''sid'', ''REV 1'')]),
            (''para'', [(''style'', ''p'')]),
            (''chapter'', [(''eid'', ''REV 1'')])], 0)"
proof -
  have "apfst (file_outline [''out'', ''01'', ''03.usx''])
     (main 10 gen_args gen_usx_files gen_toc_files example_doc) =
     (Some [(''book'', [(''code'', ''REV''), (''style'', ''id'')]),
            (''chapter'', [(''number'', ''1''), (''style'', ''c''), (''sid'', ''REV 1'')]),
            (''para'', [(''style'', ''p'')]),
            (''chapter'', [(''eid'', ''REV 1'')])], 0)"
    by code_simp
  moreover have "book_code gen_args = ''GEN''"
    by (simp add: gen_args_def)
  moreover have "main lim (a\<lparr>book_code := code\<rparr>) usx_files toc_files w =
                 main lim a usx_files toc_files w"
    by (simp add: main_def split: option.splits sum.splits prod.splits)
  ultimately show ?thesis by blast
qed

end
